theory Spec2Isabelle
  imports Complex_Main
begin

text \<open>
  A model of \<open>sync-app.js\<close>, a load tester: \<open>runTest\<close> validates a URL, a number of
  requests and a time window, \<open>loadTest\<close> sends the requests through a limiter and
  records one outcome per request, and \<open>runTest\<close> prints a summary. The functions of the
  program keep their names. What JavaScript and Node provide (numbers, \<open>parseInt\<close>,
  \<open>toFixed\<close>, \<open>JSON.stringify\<close>, \<open>Buffer.byteLength\<close>) is modelled as far as the
  program uses it. What the HTTP client \<open>axios\<close> answers, and when, is an input; so is the
  order of the events of a run, among which the limiter of the package \<open>async-throttle\<close>
  picks the schedules described in its own section.
\<close>

section \<open>Numbers\<close>

text \<open>
  Every JavaScript number is an IEEE double. The model keeps the three kinds of value the
  program can tell apart: \<open>NaN\<close>, the two infinities, and a finite number, which is
  represented by its exact rational value. The result of \<open>+\<close>, \<open>*\<close> and \<open>/\<close> on finite
  numbers is the exact result rounded to the nearest double, to the one with an even
  significand on a tie, and to an infinity from \<open>2^1024\<close> on, as IEEE 754 prescribes. The
  sign of zero is not modelled: there is one zero, and it divides like \<open>+0\<close>.
\<close>

datatype number = NaN | PosInfinity | NegInfinity | Num rat

text \<open>The number of binary digits of a natural number.\<close>

function bits :: "nat \<Rightarrow> nat" where
  "bits n = (if n = 0 then 0 else Suc (bits (n div 2)))"
  by pat_completeness auto
termination
  by (relation "measure (\<lambda>n. n)") auto

declare bits.simps [simp del]

definition pow2 :: "int \<Rightarrow> rat" where
  "pow2 e = (if 0 \<le> e then 2 ^ nat e else 1 / 2 ^ nat (- e))"

text \<open>The exponent \<open>e\<close> with \<open>2^e \<le> a < 2^(e+1)\<close>, for a positive \<open>a\<close>.\<close>

definition binade :: "rat \<Rightarrow> int" where
  "binade a =
     (if 1 \<le> a then int (bits (nat \<lfloor>a\<rfloor>)) - 1
      else - int (bits (nat (\<lceil>1 / a\<rceil> - 1))))"

text \<open>The nearest integer, the even one of the two when they are equally near.\<close>

definition round_even :: "rat \<Rightarrow> int" where
  "round_even q =
     (let f = \<lfloor>q\<rfloor>; d = q - of_int f
      in if d < 1 / 2 then f
         else if 1 / 2 < d then f + 1
         else if even f then f else f + 1)"

text \<open>
  The distance between two neighbouring doubles at the magnitude \<open>a\<close>: a significand has
  53 bits, and below \<open>2^-1022\<close> the doubles are the multiples of \<open>2^-1074\<close>.
\<close>

definition ulp :: "rat \<Rightarrow> rat" where
  "ulp a = pow2 (max (binade a) (- 1022) - 52)"

text \<open>The double that an exact result is rounded to.\<close>

definition round_double :: "rat \<Rightarrow> number" where
  "round_double x =
     (if x = 0 then Num 0
      else
        let a = \<bar>x\<bar>;
            v = of_int (round_even (a / ulp a)) * ulp a
        in if pow2 1024 \<le> v then (if 0 < x then PosInfinity else NegInfinity)
           else Num (if 0 < x then v else - v))"

fun js_add :: "number \<Rightarrow> number \<Rightarrow> number" where
  "js_add (Num a) (Num b) = round_double (a + b)"
| "js_add NaN _ = NaN"
| "js_add _ NaN = NaN"
| "js_add PosInfinity NegInfinity = NaN"
| "js_add NegInfinity PosInfinity = NaN"
| "js_add PosInfinity _ = PosInfinity"
| "js_add NegInfinity _ = NegInfinity"
| "js_add _ PosInfinity = PosInfinity"
| "js_add _ NegInfinity = NegInfinity"

fun js_mul :: "number \<Rightarrow> number \<Rightarrow> number" where
  "js_mul (Num a) (Num b) = round_double (a * b)"
| "js_mul NaN _ = NaN"
| "js_mul _ NaN = NaN"
| "js_mul PosInfinity (Num b) = (if b = 0 then NaN else if 0 < b then PosInfinity else NegInfinity)"
| "js_mul NegInfinity (Num b) = (if b = 0 then NaN else if 0 < b then NegInfinity else PosInfinity)"
| "js_mul (Num a) PosInfinity = (if a = 0 then NaN else if 0 < a then PosInfinity else NegInfinity)"
| "js_mul (Num a) NegInfinity = (if a = 0 then NaN else if 0 < a then NegInfinity else PosInfinity)"
| "js_mul PosInfinity PosInfinity = PosInfinity"
| "js_mul NegInfinity NegInfinity = PosInfinity"
| "js_mul PosInfinity NegInfinity = NegInfinity"
| "js_mul NegInfinity PosInfinity = NegInfinity"

text \<open>
  Division never raises: a zero divisor gives an infinity, or \<open>NaN\<close> for \<open>0 / 0\<close>; any
  other quotient of finite numbers is rounded.
\<close>

fun js_div :: "number \<Rightarrow> number \<Rightarrow> number" where
  "js_div (Num a) (Num b) =
     (if b = 0 then (if a = 0 then NaN else if 0 < a then PosInfinity else NegInfinity)
      else round_double (a / b))"
| "js_div NaN _ = NaN"
| "js_div _ NaN = NaN"
| "js_div (Num a) PosInfinity = Num 0"
| "js_div (Num a) NegInfinity = Num 0"
| "js_div PosInfinity (Num b) = (if 0 \<le> b then PosInfinity else NegInfinity)"
| "js_div NegInfinity (Num b) = (if 0 \<le> b then NegInfinity else PosInfinity)"
| "js_div PosInfinity _ = NaN"
| "js_div NegInfinity _ = NaN"

fun js_neg :: "number \<Rightarrow> number" where
  "js_neg (Num a) = Num (- a)"
| "js_neg PosInfinity = NegInfinity"
| "js_neg NegInfinity = PosInfinity"
| "js_neg NaN = NaN"

definition js_sub :: "number \<Rightarrow> number \<Rightarrow> number" where
  "js_sub x y = js_add x (js_neg y)"

text \<open>Strict equality \<open>===\<close> of two numbers: \<open>NaN\<close> equals nothing, itself included.\<close>

definition js_eq :: "number \<Rightarrow> number \<Rightarrow> bool" where
  "js_eq x y = (x \<noteq> NaN \<and> x = y)"

text \<open>\<open>Math.ceil\<close>.\<close>

fun js_ceil :: "number \<Rightarrow> number" where
  "js_ceil (Num a) = Num (of_int \<lceil>a\<rceil>)"
| "js_ceil x = x"

text \<open>The comparisons \<open>x <= 0\<close> and \<open>x > 0\<close>; both are false on \<open>NaN\<close>.\<close>

fun js_le0 :: "number \<Rightarrow> bool" where
  "js_le0 (Num a) = (a \<le> 0)"
| "js_le0 NegInfinity = True"
| "js_le0 _ = False"

fun js_gt0 :: "number \<Rightarrow> bool" where
  "js_gt0 (Num a) = (0 < a)"
| "js_gt0 PosInfinity = True"
| "js_gt0 _ = False"

text \<open>The comparison \<open>x < y\<close>, false when either side is \<open>NaN\<close>.\<close>

fun js_lt :: "number \<Rightarrow> number \<Rightarrow> bool" where
  "js_lt (Num a) (Num b) = (a < b)"
| "js_lt (Num a) PosInfinity = True"
| "js_lt NegInfinity (Num b) = True"
| "js_lt NegInfinity PosInfinity = True"
| "js_lt _ _ = False"

text \<open>\<open>Number.isInteger\<close> and \<open>Number.isFinite\<close>.\<close>

fun isInteger :: "number \<Rightarrow> bool" where
  "isInteger (Num a) = (of_int \<lfloor>a\<rfloor> = a)"
| "isInteger _ = False"

fun isFinite :: "number \<Rightarrow> bool" where
  "isFinite (Num a) = True"
| "isFinite _ = False"

section \<open>Strings\<close>

text \<open>
  A JavaScript string is represented by its UTF-8 encoding, one \<open>char\<close> per byte, so
  \<open>Buffer.byteLength(s, 'utf8')\<close> is the length of the list. A lone surrogate has no
  UTF-8 encoding and is outside the model.
\<close>

definition byteLength :: "string \<Rightarrow> nat" where
  "byteLength s = length s"

definition digit_char :: "nat \<Rightarrow> char" where
  "digit_char d = ''0123456789'' ! d"

definition is_digit :: "char \<Rightarrow> bool" where
  "is_digit c = (48 \<le> (of_char c :: nat) \<and> (of_char c :: nat) \<le> 57)"

definition digit_val :: "char \<Rightarrow> nat" where
  "digit_val c = of_char c - 48"

text \<open>The decimal digits of a natural number, without leading zeros.\<close>

function digits :: "nat \<Rightarrow> string" where
  "digits n = (if n < 10 then [digit_char n] else digits (n div 10) @ [digit_char (n mod 10)])"
  by pat_completeness auto
termination
  by (relation "measure (\<lambda>n. n)") auto

declare digits.simps [simp del]

definition decimal :: "string \<Rightarrow> nat" where
  "decimal ds = foldl (\<lambda>acc c. 10 * acc + digit_val c) 0 ds"

text \<open>
  \<open>parseInt(s, 10)\<close>: leading white space is skipped, a sign is read, then the longest
  run of decimal digits; whatever follows is ignored, and no digit at all gives \<open>NaN\<close>.
  The integer read is rounded to a double.
  White space is the ASCII part of JavaScript's: tab, line feed, vertical tab, form feed,
  carriage return and space.
\<close>

definition is_space :: "char \<Rightarrow> bool" where
  "is_space c = ((of_char c :: nat) \<in> {9, 10, 11, 12, 13, 32})"

definition parseInt :: "string \<Rightarrow> number" where
  "parseInt s =
     (let s1 = dropWhile is_space s;
          neg = (case s1 of [] \<Rightarrow> False | c # _ \<Rightarrow> c = CHR ''-'');
          s2 = (case s1 of [] \<Rightarrow> [] | c # r \<Rightarrow> if c = CHR ''-'' \<or> c = CHR ''+'' then r else s1);
          ds = takeWhile is_digit s2
      in if ds = [] then NaN
         else round_double (if neg then - of_nat (decimal ds) else of_nat (decimal ds)))"

text \<open>
  \<open>x.toFixed(2)\<close>: the integer \<open>n\<close> with \<open>n / 100\<close> nearest to the magnitude of
  \<open>x\<close>, the larger one on a tie, printed with two decimals after the sign. (From
  \<open>10^21\<close> on JavaScript prints the exponent form instead; the program's figures stay far
  below.)
\<close>

definition hundredths :: "rat \<Rightarrow> nat" where
  "hundredths a = nat \<lfloor>\<bar>a\<bar> * 100 + 1 / 2\<rfloor>"

fun toFixed2 :: "number \<Rightarrow> string" where
  "toFixed2 NaN = ''NaN''"
| "toFixed2 PosInfinity = ''Infinity''"
| "toFixed2 NegInfinity = ''-Infinity''"
| "toFixed2 (Num a) =
     (let n = hundredths a
      in (if a < 0 then ''-'' else []) @ digits (n div 100) @ ''.'' @
         [digit_char (n mod 100 div 10), digit_char (n mod 10)])"

text \<open>
  The conversion of a string to a number that \<open>/\<close> applies to a string operand, on the
  strings \<open>toFixed\<close> returns: an optional sign, then \<open>Infinity\<close> or digits with an
  optional fraction, read as the double nearest to the decimal value. Any other string
  gives \<open>NaN\<close> here (JavaScript also reads exponents, hexadecimal literals, a fraction with
  no integer part and surrounding white space).
\<close>

definition unsigned_decimal :: "string \<Rightarrow> number" where
  "unsigned_decimal s =
     (let ip = takeWhile is_digit s
      in if s = ''Infinity'' then PosInfinity
         else if ip = [] then NaN
         else (case dropWhile is_digit s of
                 [] \<Rightarrow> round_double (of_nat (decimal ip))
               | c # fp \<Rightarrow>
                   if c = CHR ''.'' \<and> list_all is_digit fp
                   then round_double (of_nat (decimal ip) + of_nat (decimal fp) / 10 ^ length fp)
                   else NaN))"

definition toNumber :: "string \<Rightarrow> number" where
  "toNumber s =
     (case s of
        [] \<Rightarrow> Num 0
      | c # r \<Rightarrow>
          if c = CHR ''-'' then js_neg (unsigned_decimal r)
          else if c = CHR ''+'' then unsigned_decimal r
          else unsigned_decimal s)"

section \<open>Response bodies and \<open>JSON.stringify\<close>\<close>

text \<open>
  The HTTP client hands over a body as the value it parsed: a JSON value, or a string for
  any other text. \<open>undefined\<close> is \<open>None\<close> at the places that hold a body. Numbers in a body
  are integers here, printed in decimal as JavaScript prints an integer below \<open>10^21\<close>.
  An object lists its properties in JavaScript's property order.
\<close>

datatype json =
    JNull
  | JBool bool
  | JNumber int
  | JString string
  | JArray "json list"
  | JObject "(string \<times> json) list"

text \<open>What an \<open>if\<close> or \<open>&&\<close> makes of a value.\<close>

fun truthy :: "json \<Rightarrow> bool" where
  "truthy JNull = False"
| "truthy (JBool b) = b"
| "truthy (JNumber n) = (n \<noteq> 0)"
| "truthy (JString s) = (s \<noteq> [])"
| "truthy (JArray xs) = True"
| "truthy (JObject kvs) = True"

definition hex_char :: "nat \<Rightarrow> char" where
  "hex_char d = ''0123456789abcdef'' ! d"

text \<open>
  A string is quoted with \<open>"\<close> and \<open>\\<close> escaped, the control characters below
  \<open>0x20\<close> written as \<open>\b \t \n \f \r\<close> or \<open>\u00XX\<close>, and every other byte kept.
\<close>

definition escape_char :: "char \<Rightarrow> string" where
  "escape_char c =
     (if c = CHR 0x22 then [CHR 0x5C, CHR 0x22]
      else if c = CHR 0x5C then [CHR 0x5C, CHR 0x5C]
      else if c = CHR 0x08 then [CHR 0x5C, CHR ''b'']
      else if c = CHR 0x09 then [CHR 0x5C, CHR ''t'']
      else if c = CHR 0x0A then [CHR 0x5C, CHR ''n'']
      else if c = CHR 0x0C then [CHR 0x5C, CHR ''f'']
      else if c = CHR 0x0D then [CHR 0x5C, CHR ''r'']
      else if (of_char c :: nat) < 32
        then [CHR 0x5C, CHR ''u'', CHR ''0'', CHR ''0'',
              hex_char (of_char c div 16), hex_char (of_char c mod 16)]
      else [c])"

definition quote :: "string \<Rightarrow> string" where
  "quote s = [CHR 0x22] @ concat (map escape_char s) @ [CHR 0x22]"

fun join :: "string \<Rightarrow> string list \<Rightarrow> string" where
  "join sep [] = []"
| "join sep [x] = x"
| "join sep (x # y # ys) = x @ sep @ join sep (y # ys)"

fun JSON_stringify :: "json \<Rightarrow> string" where
  "JSON_stringify JNull = ''null''"
| "JSON_stringify (JBool b) = (if b then ''true'' else ''false'')"
| "JSON_stringify (JNumber n) = (if n < 0 then ''-'' else []) @ digits (nat \<bar>n\<bar>)"
| "JSON_stringify (JString s) = quote s"
| "JSON_stringify (JArray xs) = ''['' @ join '','' (map JSON_stringify xs) @ '']''"
| "JSON_stringify (JObject kvs) =
     ''{'' @ join '','' (map (\<lambda>(k, v). quote k @ '':'' @ JSON_stringify v) kvs) @ ''}''"

section \<open>Responses and their size\<close>

text \<open>
  What \<open>axios.get\<close> resolves with: the status, the headers (a dictionary from lower-case
  header names to values) and the body. A rejection carries a message and, when the server
  answered, the response.
\<close>

record response =
  status :: int
  headers :: "string \<rightharpoonup> string"
  data :: "json option"

record axiosError =
  message :: string
  response :: "response option"

text \<open>
  \<open>getResponseSize\<close>. The argument is \<open>None\<close> for a missing response. The header is used
  when its value is truthy, that is, a non-empty string; the body is measured when it is
  truthy.
\<close>

definition getResponseSize :: "response option \<Rightarrow> number" where
  "getResponseSize resp =
     (case resp of
        None \<Rightarrow> Num 0
      | Some r \<Rightarrow>
          (case headers r ''content-length'' of
             Some (c # cs) \<Rightarrow> parseInt (c # cs)
           | _ \<Rightarrow>
               (case data r of
                  Some d \<Rightarrow>
                    if truthy d then Num (of_nat (byteLength (JSON_stringify d))) else Num 0
                | None \<Rightarrow> Num 0)))"

section \<open>Input validation\<close>

datatype error = Error string | RangeError string

text \<open>
  The pattern \<open>^https?:\/\/.+\<close>: the scheme, then at least one character other than
  a line terminator (line feed, carriage return, U+2028, U+2029).
\<close>

definition line_terminator_first :: "string \<Rightarrow> bool" where
  "line_terminator_first s =
     (take 1 s = [CHR 0x0A] \<or> take 1 s = [CHR 0x0D] \<or>
      take 3 s = [CHR 0xE2, CHR 0x80, CHR 0xA8] \<or> take 3 s = [CHR 0xE2, CHR 0x80, CHR 0xA9])"

definition match_url :: "string \<Rightarrow> bool" where
  "match_url url =
     (let rest = (if take 7 url = ''http://'' then drop 7 url
                  else if take 8 url = ''https://'' then drop 8 url
                  else [])
      in rest \<noteq> [] \<and> \<not> line_terminator_first rest)"

text \<open>
  \<open>validateInputs\<close> returns nothing; \<open>Some e\<close> is the error it throws. Here and below
  the parameters \<open>requests\<close> and \<open>seconds\<close> are the program's \<open>totalRequests\<close> and
  \<open>timeWindowSeconds\<close>, names that the fields of the result carry.
\<close>

definition validateInputs :: "string \<Rightarrow> number \<Rightarrow> number \<Rightarrow> error option" where
  "validateInputs url requests seconds =
     (if url = [] \<or> \<not> match_url url
        then Some (Error ''Invalid or missing URL. Please provide a valid URL starting with http:// or https://'')
      else if \<not> isInteger requests \<or> js_le0 requests
        then Some (Error ''Invalid totalRequests. Please provide a positive integer.'')
      else if \<not> isFinite seconds \<or> js_le0 seconds
        then Some (Error ''Invalid timeWindowSeconds. Please provide a positive number.'')
      else None)"

section \<open>The load test\<close>

datatype status = NA | Code int

record responseData =
  requestNumber :: nat
  timeMs :: int
  status :: status
  success :: bool
  sizeBytes :: number
  error :: "string option"

record results =
  totalRequests :: number
  timeWindowSeconds :: number
  successfulRequests :: nat
  failedRequests :: nat
  responses :: "responseData list"
  totalTimeTakenMs :: int
  firstQueryStartTime :: "int option"
  lastQueryStartTime :: "int option"
  totalResponseSizeBytes :: number

text \<open>
  \<open>loadTest\<close> hands one task per index to the limiter made by \<open>throttle\<close> and waits for
  all of them. The limiter and the HTTP client belong to other packages, so what they do is
  an input of the model: a list of events, each with the reading of \<open>Date.now()\<close> at that
  moment.
  \<^item> \<open>Begin i now\<close>: the limiter starts the task of index \<open>i\<close>, which runs up to its
    \<open>await axios.get\<close>;
  \<^item> \<open>Fulfilled i now r\<close>: the request of index \<open>i\<close> resolves with the response \<open>r\<close>
    and the task runs to its end;
  \<^item> \<open>Rejected i now e\<close>: the request of index \<open>i\<close> rejects with \<open>e\<close> and the task
    runs to its end.
  JavaScript runs each of these pieces without interruption. \<open>step\<close> and \<open>loadTest\<close>
  accept the events in any order in which they can happen to the tasks; which orders the
  limiter produces is the subject of the section on the limiter.
\<close>

datatype event =
    Begin nat int
  | Fulfilled nat int response
  | Rejected nat int axiosError

record world =
  startTime :: int
  events :: "event list"
  endTime :: int

text \<open>
  A task is waiting in the limiter, is at its \<open>await\<close> (with its \<open>requestStartTime\<close>),
  or has finished.
\<close>

datatype phase = Queued | Running int | Settled

record run =
  results :: results
  throttleRequests :: number
  phase :: "nat \<Rightarrow> phase"

text \<open>
  One event. \<open>len\<close> is the number of tasks. An event that cannot happen (a task started
  twice, a request settling that is not in flight) gives \<open>None\<close>.
\<close>

fun step :: "nat \<Rightarrow> event \<Rightarrow> run \<Rightarrow> run option" where
  "step len (Begin index requestStartTime) s =
     (if index < len \<and> phase s index = Queued then
        let r = results s;
            r1 = (if index = 0 then r\<lparr>firstQueryStartTime := Some requestStartTime\<rparr> else r);
            r2 = (if js_eq (Num (of_nat index)) (js_sub (totalRequests r1) (Num 1))
                  then r1\<lparr>lastQueryStartTime := Some requestStartTime\<rparr> else r1)
        in Some (s\<lparr>results := r2, phase := (phase s)(index := Running requestStartTime)\<rparr>)
      else None)"
| "step len (Fulfilled index now resp) s =
     (case phase s index of
        Running requestStartTime \<Rightarrow>
          let responseData =
                \<lparr>requestNumber = index + 1,
                 timeMs = now - requestStartTime,
                 status = Code (response.status resp),
                 success = True,
                 sizeBytes = getResponseSize (Some resp),
                 error = None\<rparr>;
              r = results s
          in Some (s\<lparr>results :=
                      r\<lparr>successfulRequests := successfulRequests r + 1,
                        totalResponseSizeBytes :=
                          js_add (totalResponseSizeBytes r) (sizeBytes responseData),
                        responses := responses r @ [responseData]\<rparr>,
                    phase := (phase s)(index := Settled)\<rparr>)
      | _ \<Rightarrow> None)"
| "step len (Rejected index now err) s =
     (case phase s index of
        Running requestStartTime \<Rightarrow>
          let responseData =
                \<lparr>requestNumber = index + 1,
                 timeMs = now - requestStartTime,
                 status = (case response err of
                             Some resp \<Rightarrow> Code (response.status resp)
                           | None \<Rightarrow> NA),
                 success = False,
                 sizeBytes = (case response err of
                                Some resp \<Rightarrow> getResponseSize (Some resp)
                              | None \<Rightarrow> Num 0),
                 error = Some (message err)\<rparr>;
              r = results s
          in Some (s\<lparr>results :=
                      r\<lparr>failedRequests := failedRequests r + 1,
                        totalResponseSizeBytes :=
                          js_add (totalResponseSizeBytes r) (sizeBytes responseData),
                        responses := responses r @ [responseData]\<rparr>,
                    phase := (phase s)(index := Settled)\<rparr>)
      | _ \<Rightarrow> None)"

fun run_events :: "nat \<Rightarrow> event list \<Rightarrow> run \<Rightarrow> run option" where
  "run_events len [] s = Some s"
| "run_events len (e # es) s =
     (case step len e s of None \<Rightarrow> None | Some s' \<Rightarrow> run_events len es s')"

text \<open>\<open>Math.ceil(totalRequests / timeWindowSeconds)\<close>, the argument of \<open>throttle\<close>.\<close>

definition requestsPerSecond :: "number \<Rightarrow> number \<Rightarrow> number" where
  "requestsPerSecond requests seconds = js_ceil (js_div requests seconds)"

text \<open>
  The length that \<open>Array.from({ length: totalRequests }, ...)\<close> reads: \<open>NaN\<close> and
  anything below 1 give 0, a fraction is cut off, and the length stops at \<open>2^53 - 1\<close>.
\<close>

fun toLength :: "number \<Rightarrow> nat" where
  "toLength (Num a) =
     (if a \<le> 0 then 0
      else if 9007199254740991 \<le> a then 9007199254740991
      else nat \<lfloor>a\<rfloor>)"
| "toLength PosInfinity = 9007199254740991"
| "toLength _ = 0"

definition initial :: "number \<Rightarrow> number \<Rightarrow> run" where
  "initial requests seconds =
     \<lparr>results =
        \<lparr>totalRequests = requests,
         timeWindowSeconds = seconds,
         successfulRequests = 0,
         failedRequests = 0,
         responses = [],
         totalTimeTakenMs = 0,
         firstQueryStartTime = None,
         lastQueryStartTime = None,
         totalResponseSizeBytes = Num 0\<rparr>,
      throttleRequests = requestsPerSecond requests seconds,
      phase = (\<lambda>_. Queued)\<rparr>"

text \<open>
  \<open>loadTest\<close>. \<open>None\<close>: the promise does not resolve on these events (a task is never
  started or never settles, or the events cannot happen). \<open>Some (Inl e)\<close>: it rejects with
  \<open>e\<close>, which only \<open>Array.from\<close> causes, for a length that no array can have.
  \<open>Some (Inr r)\<close>: it resolves with \<open>r\<close>. (\<open>4294967295\<close> is \<open>2^32 - 1\<close>, the longest
  array.)
\<close>

definition loadTest :: "string \<Rightarrow> number \<Rightarrow> number \<Rightarrow> world \<Rightarrow> (error + results) option" where
  "loadTest url requests seconds w =
     (let s0 = initial requests seconds;
          len = toLength requests
      in if 4294967295 < len then Some (Inl (RangeError ''Invalid array length''))
         else
           (case run_events len (events w) s0 of
              None \<Rightarrow> None
            | Some s \<Rightarrow>
                if list_all (\<lambda>index. phase s index = Settled) [0..<len]
                then Some (Inr ((results s)\<lparr>totalTimeTakenMs := endTime w - startTime w\<rparr>))
                else None))"

section \<open>The summary\<close>

text \<open>
  The figures \<open>runTest\<close> prints after the run, as the text that goes into the report; the
  number 0 of the two guarded figures prints as \<open>0\<close>.
\<close>

record summary =
  errorRate :: string
  averageResponseTimeMs :: string
  totalResponseSizeMB :: string
  mbps :: string

definition summarize :: "results \<Rightarrow> summary" where
  "summarize result =
     (let errorRate =
            toFixed2 (js_mul (js_div (Num (of_nat (failedRequests result))) (totalRequests result))
                        (Num 100));
          averageResponseTimeMs =
            (if 0 < length (responses result)
             then toFixed2 (js_div (Num (of_int (foldl (\<lambda>sum res. sum + timeMs res) 0
                                                        (responses result))))
                                   (Num (of_nat (length (responses result)))))
             else ''0'');
          totalResponseSizeMB =
            toFixed2 (js_div (totalResponseSizeBytes result) (Num (1024 * 1024)));
          totalTimeSeconds = js_div (Num (of_int (totalTimeTakenMs result))) (Num 1000);
          mbps =
            (if js_gt0 totalTimeSeconds
             then toFixed2 (js_div (toNumber totalResponseSizeMB) totalTimeSeconds)
             else ''0'')
      in \<lparr>errorRate = errorRate,
          averageResponseTimeMs = averageResponseTimeMs,
          totalResponseSizeMB = totalResponseSizeMB,
          mbps = mbps\<rparr>)"

text \<open>
  \<open>runTest\<close>, from the parsed answers on: validation, the run, the summary. An error
  thrown on the way is caught and reported (\<open>Inl\<close>); \<open>None\<close> when \<open>loadTest\<close> does not
  resolve.
\<close>

definition runTest :: "string \<Rightarrow> number \<Rightarrow> number \<Rightarrow> world \<Rightarrow> (error + results \<times> summary) option" where
  "runTest url requests seconds w =
     (case validateInputs url requests seconds of
        Some e \<Rightarrow> Some (Inl e)
      | None \<Rightarrow>
          (case loadTest url requests seconds w of
             None \<Rightarrow> None
           | Some (Inl e) \<Rightarrow> Some (Inl e)
           | Some (Inr result) \<Rightarrow> Some (Inr (result, summarize result))))"

section \<open>The limiter\<close>

text \<open>
  \<open>throttle\<close> is the function that the package \<open>async-throttle\<close> exports. The package is
  not part of the program; this section follows its published source, which is short:
  \<open>throttle(max)\<close> returns a function that keeps a counter \<open>cur\<close> of the tasks that are
  running and a \<open>queue\<close> of the tasks that wait. The handler of a submitted task starts
  the task when \<open>cur < max\<close>, counting it, and puts itself at the end of the queue
  otherwise. When a running task finishes, \<open>cur\<close> goes down by one and the handler at the
  head of the queue, if there is one, is taken out and called. (\<open>throttle\<close> throws a
  \<open>TypeError\<close> when \<open>max\<close> is not a number, which \<open>Math.ceil\<close> excludes.) The limiter
  has no clock: \<open>max\<close> bounds the number of tasks running at once.

  A task is named by its index; the field for \<open>max\<close> is \<open>max'\<close>.
\<close>

record limiter =
  max' :: number
  cur :: nat
  queue :: "nat list"

definition throttle :: "number \<Rightarrow> limiter" where
  "throttle m = \<lparr>max' = m, cur = 0, queue = []\<rparr>"

text \<open>The handler of the task \<open>i\<close>; the list holds the task when it starts now.\<close>

definition handleFn :: "nat \<Rightarrow> limiter \<Rightarrow> limiter \<times> nat list" where
  "handleFn i l =
     (if js_lt (Num (of_nat (cur l))) (max' l) then (l\<lparr>cur := cur l + 1\<rparr>, [i])
      else (l\<lparr>queue := queue l @ [i]\<rparr>, []))"

text \<open>What the limiter does when a running task has finished.\<close>

definition settle :: "limiter \<Rightarrow> limiter \<times> nat list" where
  "settle l =
     (let l1 = l\<lparr>cur := cur l - 1\<rparr>
      in case queue l1 of
           [] \<Rightarrow> (l1, [])
         | i # q \<Rightarrow> handleFn i (l1\<lparr>queue := q\<rparr>))"

text \<open>
  \<open>Array.from\<close> submits the tasks in the order of their indices, before any request is
  answered. The result is the limiter and the tasks it has started, in the order of their
  start.
\<close>

definition submit :: "limiter \<times> nat list \<Rightarrow> nat \<Rightarrow> limiter \<times> nat list" where
  "submit st i = (case handleFn i (fst st) of (l, now) \<Rightarrow> (l, snd st @ now))"

definition submitted :: "number \<Rightarrow> nat \<Rightarrow> limiter \<times> nat list" where
  "submitted m len = foldl submit (throttle m, []) [0..<len]"

text \<open>
  The events that the limiter lets happen. \<open>due\<close> holds the tasks that the limiter has
  started and that have not yet reached their \<open>await\<close>: a started task runs up to there
  at once, so its \<open>Begin\<close> is the next event. A request is answered only when no task is
  due and some task is running.
\<close>

fun admits :: "limiter \<Rightarrow> nat list \<Rightarrow> event list \<Rightarrow> bool" where
  "admits l [] [] = True"
| "admits l (i # due) [] = False"
| "admits l (i # due) (Begin j t # es) = (j = i \<and> admits l due es)"
| "admits l (i # due) (e # es) = False"
| "admits l [] (Begin j t # es) = False"
| "admits l [] (e # es) =
     (0 < cur l \<and> (case settle l of (l1, due) \<Rightarrow> admits l1 due es))"

definition throttled :: "number \<Rightarrow> nat \<Rightarrow> event list \<Rightarrow> bool" where
  "throttled m len es = (case submitted m len of (l, due) \<Rightarrow> admits l due es)"

text \<open>The admissions of a run: which task the limiter started, and when, in order.\<close>

fun admissions :: "event list \<Rightarrow> (nat \<times> int) list" where
  "admissions [] = []"
| "admissions (Begin i t # es) = (i, t) # admissions es"
| "admissions (e # es) = admissions es"

text \<open>The number of tasks admitted in the second that starts at \<open>t0\<close>.\<close>

definition admitted_within :: "int \<Rightarrow> event list \<Rightarrow> nat" where
  "admitted_within t0 es =
     length (filter (\<lambda>a. t0 \<le> snd a \<and> snd a < t0 + 1000) (admissions es))"

section \<open>The specification's reading of three computations\<close>

text \<open>
  These three definitions follow the words of the specification, not the code; the
  theorems below compare them with \<open>getResponseSize\<close>, \<open>summarize\<close> and the limiter.

  The size of a response, by the specification's order of preference: the parsed
  \<open>content-length\<close> header if the header is present; else, if a body is present, the UTF-8
  length of its JSON serialisation; else 0.
\<close>

definition responseSize_spec :: "response \<Rightarrow> number" where
  "responseSize_spec r =
     (case headers r ''content-length'' of
        Some h \<Rightarrow> parseInt h
      | None \<Rightarrow>
          (case data r of
             Some d \<Rightarrow> Num (of_nat (byteLength (JSON_stringify d)))
           | None \<Rightarrow> Num 0))"

text \<open>
  The summary recomputed from the list of outcomes and the total elapsed time: the error
  rate from the number of failed outcomes, the average of \<open>timeMs\<close>, the megabytes from
  the sum of \<open>sizeBytes\<close>, and the throughput \<open>totalMB / (totalElapsedMs / 1000)\<close>, each
  with two decimals.
\<close>

definition recomputed :: "responseData list \<Rightarrow> int \<Rightarrow> summary" where
  "recomputed outcomes totalElapsedMs =
     (let failed = length (filter (\<lambda>d. \<not> success d) outcomes);
          totalBytes = foldl js_add (Num 0) (map sizeBytes outcomes);
          totalMB = toFixed2 (js_div totalBytes (Num (1024 * 1024)))
      in \<lparr>errorRate =
            toFixed2 (js_mul (js_div (Num (of_nat failed)) (Num (of_nat (length outcomes))))
                        (Num 100)),
          averageResponseTimeMs =
            toFixed2 (js_div (Num (of_int (sum_list (map timeMs outcomes))))
                        (Num (of_nat (length outcomes)))),
          totalResponseSizeMB = totalMB,
          mbps =
            toFixed2 (js_div (toNumber totalMB)
                        (js_div (Num (of_int totalElapsedMs)) (Num 1000)))\<rparr>)"

text \<open>
  The admission policy of the specification: no more than \<open>R\<close> admissions begin within
  any rolling second. A second that holds the most admissions can be taken to start with
  one of them, so the seconds that start with an admission are the ones to look at.
\<close>

definition rolling_bound :: "number \<Rightarrow> event list \<Rightarrow> bool" where
  "rolling_bound R es =
     list_all (\<lambda>a. \<not> js_lt R (Num (of_nat (admitted_within (snd a) es)))) (admissions es)"

section \<open>Invariants of a run\<close>

text \<open>The counters and the byte total agree with the list of outcomes.\<close>

definition counted :: "run \<Rightarrow> bool" where
  "counted s =
     (successfulRequests (results s) = length (filter success (responses (results s))) \<and>
      failedRequests (results s) = length (filter (\<lambda>d. \<not> success d) (responses (results s))) \<and>
      totalResponseSizeBytes (results s) =
        foldl js_add (Num 0) (map sizeBytes (responses (results s))))"

text \<open>
  The request numbers recorded so far are those of the finished tasks, each once, and only
  tasks below \<open>len\<close> ever start.
\<close>

definition numbered :: "nat \<Rightarrow> run \<Rightarrow> bool" where
  "numbered len s =
     (distinct (map requestNumber (responses (results s))) \<and>
      set (map requestNumber (responses (results s))) = Suc ` {i. phase s i = Settled} \<and>
      {i. phase s i \<noteq> Queued} \<subseteq> {0..<len})"

text \<open>
  What the schedule of an event is, apart from its time and from the outcome of the
  request: whether a task starts or finishes, and which one. Two runs are alike when the
  same tasks are waiting and the same tasks have finished.
\<close>

fun shape :: "event \<Rightarrow> bool \<times> nat" where
  "shape (Begin i t) = (True, i)"
| "shape (Fulfilled i t r) = (False, i)"
| "shape (Rejected i t e) = (False, i)"

definition alike :: "run \<Rightarrow> run \<Rightarrow> bool" where
  "alike s s' =
     (\<forall>i. (phase s i = Queued \<longleftrightarrow> phase s' i = Queued) \<and>
          (phase s i = Settled \<longleftrightarrow> phase s' i = Settled))"

text \<open>
  The schedule on which the tasks run one after the other, the task of index \<open>i\<close>
  starting and finishing at time \<open>i\<close> with the outcome \<open>outcome i\<close>.
\<close>

definition one_by_one :: "(nat \<Rightarrow> response + axiosError) \<Rightarrow> nat \<Rightarrow> event list" where
  "one_by_one outcome n =
     concat (map (\<lambda>i. [Begin i (int i),
                        (case outcome i of
                           Inl resp \<Rightarrow> Fulfilled i (int i) resp
                         | Inr err \<Rightarrow> Rejected i (int i) err)]) [0..<n])"

text \<open>
  The limiter keeps the order of submission: the tasks from \<open>k\<close> on, up to \<open>m\<close>, are
  those that are due followed by those in the queue; a task waits only while \<open>cur < max\<close>
  is false; and the last task counted was counted when \<open>cur < max\<close> was true.
\<close>

definition in_order :: "nat \<Rightarrow> nat \<Rightarrow> limiter \<Rightarrow> nat list \<Rightarrow> bool" where
  "in_order k m l due =
     (due @ queue l = [k..<m] \<and>
      (queue l \<noteq> [] \<longrightarrow> \<not> js_lt (Num (of_nat (cur l))) (max' l)) \<and>
      (0 < cur l \<longrightarrow> js_lt (Num (of_nat (cur l - 1))) (max' l)))"

section \<open>Example runs\<close>

text \<open>
  Three responses: one with a \<open>content-length\<close> header, an error response with a JSON
  body and no such header, and one with neither header nor body.
\<close>

definition ok_response :: response where
  "ok_response =
     \<lparr>response.status = 200, headers = [''content-length'' \<mapsto> ''100''],
      data = Some (JString ''ok'')\<rparr>"

definition missing_response :: response where
  "missing_response =
     \<lparr>response.status = 404, headers = Map.empty,
      data = Some (JObject [(''error'', JString ''not found'')])\<rparr>"

definition empty_response :: response where
  "empty_response = \<lparr>response.status = 204, headers = Map.empty, data = Some (JString [])\<rparr>"

text \<open>
  Three requests in two seconds, so that two run at a time. The second request fails
  first, with a 404, and the third task starts; the first request succeeds after that; the
  third times out.
\<close>

definition sample_world :: world where
  "sample_world =
     \<lparr>startTime = 1000,
      events =
        [Begin 0 1001, Begin 1 1001,
         Rejected 1 1030
           \<lparr>message = ''Request failed with status code 404'',
            response = Some missing_response\<rparr>,
         Begin 2 1030,
         Fulfilled 0 1090 ok_response,
         Rejected 2 11030 \<lparr>message = ''timeout of 10000ms exceeded'', response = None\<rparr>],
      endTime = 11031\<rparr>"

definition sample_result :: results where
  "sample_result =
     \<lparr>totalRequests = Num 3,
      timeWindowSeconds = Num 2,
      successfulRequests = 1,
      failedRequests = 2,
      responses =
        [\<lparr>requestNumber = 2, timeMs = 29, status = Code 404, success = False,
          sizeBytes = Num 21, error = Some ''Request failed with status code 404''\<rparr>,
         \<lparr>requestNumber = 1, timeMs = 89, status = Code 200, success = True,
          sizeBytes = Num 100, error = None\<rparr>,
         \<lparr>requestNumber = 3, timeMs = 10000, status = NA, success = False,
          sizeBytes = Num 0, error = Some ''timeout of 10000ms exceeded''\<rparr>],
      totalTimeTakenMs = 10031,
      firstQueryStartTime = Some 1001,
      lastQueryStartTime = Some 1030,
      totalResponseSizeBytes = Num 121\<rparr>"


text \<open>A single request.\<close>

definition single_world :: world where
  "single_world =
     \<lparr>startTime = 1000, events = [Begin 0 1001, Fulfilled 0 1020 ok_response],
      endTime = 1021\<rparr>"

definition single_result :: results where
  "single_result =
     \<lparr>totalRequests = Num 1,
      timeWindowSeconds = Num 1,
      successfulRequests = 1,
      failedRequests = 0,
      responses =
        [\<lparr>requestNumber = 1, timeMs = 19, status = Code 200, success = True,
          sizeBytes = Num 100, error = None\<rparr>],
      totalTimeTakenMs = 21,
      firstQueryStartTime = Some 1001,
      lastQueryStartTime = Some 1001,
      totalResponseSizeBytes = Num 100\<rparr>"

text \<open>A single request answered within the same millisecond.\<close>

definition instant_world :: world where
  "instant_world =
     \<lparr>startTime = 1000, events = [Begin 0 1000, Fulfilled 0 1000 ok_response],
      endTime = 1000\<rparr>"

definition instant_result :: results where
  "instant_result =
     \<lparr>totalRequests = Num 1,
      timeWindowSeconds = Num 1,
      successfulRequests = 1,
      failedRequests = 0,
      responses =
        [\<lparr>requestNumber = 1, timeMs = 0, status = Code 200, success = True,
          sizeBytes = Num 100, error = None\<rparr>],
      totalTimeTakenMs = 0,
      firstQueryStartTime = Some 1000,
      lastQueryStartTime = Some 1000,
      totalResponseSizeBytes = Num 100\<rparr>"

text \<open>
  A body that is the JSON value \<open>false\<close>, a \<open>content-length\<close> header with an empty
  value, and the schedule of the three requests above with every request succeeding.
\<close>

definition false_response :: response where
  "false_response = \<lparr>response.status = 200, headers = Map.empty, data = Some (JBool False)\<rparr>"

definition blank_header_response :: response where
  "blank_header_response =
     \<lparr>response.status = 200, headers = [''content-length'' \<mapsto> ''''],
      data = Some (JString ''ok'')\<rparr>"

definition unfailing_world :: world where
  "unfailing_world =
     \<lparr>startTime = 1000,
      events =
        [Begin 0 1001, Begin 1 1001,
         Fulfilled 1 1030 ok_response,
         Begin 2 1030,
         Fulfilled 0 1090 ok_response,
         Fulfilled 2 1100 ok_response],
      endTime = 1101\<rparr>"

text \<open>
  Ten requests in three seconds, every one answered with 100 bytes after 10 milliseconds.
  The first four tasks start as they are submitted; each of the others starts when a
  request before it has been answered.
\<close>

definition burst_world :: world where
  "burst_world =
     \<lparr>startTime = 1000,
      events =
        [Begin 0 1000, Begin 1 1000, Begin 2 1000, Begin 3 1000,
         Fulfilled 0 1010 ok_response, Begin 4 1010,
         Fulfilled 1 1010 ok_response, Begin 5 1010,
         Fulfilled 2 1010 ok_response, Begin 6 1010,
         Fulfilled 3 1010 ok_response, Begin 7 1010,
         Fulfilled 4 1020 ok_response, Begin 8 1020,
         Fulfilled 5 1020 ok_response, Begin 9 1020,
         Fulfilled 6 1020 ok_response,
         Fulfilled 7 1020 ok_response,
         Fulfilled 8 1030 ok_response,
         Fulfilled 9 1030 ok_response],
      endTime = 1030\<rparr>"

definition burst_result :: results where
  "burst_result =
     \<lparr>totalRequests = Num 10,
      timeWindowSeconds = Num 3,
      successfulRequests = 10,
      failedRequests = 0,
      responses =
        map (\<lambda>k. \<lparr>requestNumber = k, timeMs = 10, status = Code 200, success = True,
                   sizeBytes = Num 100, error = None\<rparr>)
          [1, 2, 3, 4, 5, 6, 7, 8, 9, 10],
      totalTimeTakenMs = 30,
      firstQueryStartTime = Some 1000,
      lastQueryStartTime = Some 1020,
      totalResponseSizeBytes = Num 1000\<rparr>"

section \<open>Rounding to a double\<close>

lemma bits_0: "bits 0 = 0"
  by (simp add: bits.simps)

lemma bits_pos: "0 < n \<Longrightarrow> bits n = Suc (bits (n div 2))"
  by (subst bits.simps) simp

lemma bits_bounds: "0 < n \<Longrightarrow> 2 ^ (bits n - 1) \<le> n \<and> n < 2 ^ bits n"
proof (induction n rule: bits.induct)
  case (1 n)
  show ?case
  proof (cases "n div 2 = 0")
    case True
    with 1(2) have "n = 1" by (simp add: div_eq_0_iff)
    then show ?thesis by (simp add: bits_pos bits_0)
  next
    case False
    then have m: "0 < n div 2" by simp
    from 1(1) [OF _ m] 1(2) have ih: "2 ^ (bits (n div 2) - 1) \<le> n div 2" "n div 2 < 2 ^ bits (n div 2)"
      by auto
    have b: "bits n = Suc (bits (n div 2))"
      by (rule bits_pos [OF 1(2)])
    have p: "0 < bits (n div 2)"
      using bits_pos [OF m] by simp
    then have "(2::nat) ^ bits (n div 2) = 2 * 2 ^ (bits (n div 2) - 1)"
      by (cases "bits (n div 2)") auto
    moreover have "2 * (n div 2) \<le> n" "n < 2 * (n div 2) + 2"
      by presburger+
    ultimately have "2 ^ bits (n div 2) \<le> n" "n < 2 * 2 ^ bits (n div 2)"
      using ih by linarith+
    then show ?thesis
      unfolding b by simp
  qed
qed

lemma pow2_powi: "pow2 e = 2 powi e"
  by (simp add: pow2_def power_int_def field_simps)

lemma pow2_pos: "0 < pow2 e"
  by (simp add: pow2_powi)


lemma pow2_mono: "a \<le> b \<Longrightarrow> pow2 a \<le> pow2 b"
  by (simp add: pow2_powi power_int_increasing)

lemma pow2_less: "pow2 a < pow2 b \<Longrightarrow> a < b"
  using pow2_mono [of b a] by (cases "a < b") auto

lemma pow2_nat: "pow2 (int k) = 2 ^ k"
  by (simp add: pow2_def)

lemma pow2_neg_nat: "pow2 (- int k) = 1 / 2 ^ k"
  by (simp add: pow2_powi power_int_minus field_simps)

lemma binade_bounds:
  assumes "0 < a"
  shows "pow2 (binade a) \<le> a" and "a < pow2 (binade a + 1)"
proof -
  have "pow2 (binade a) \<le> a \<and> a < pow2 (binade a + 1)"
  proof (cases "1 \<le> a")
    case True
    define n where "n = nat \<lfloor>a\<rfloor>"
    from True have n: "0 < n" "of_nat n \<le> a" "a < of_nat n + 1"
      unfolding n_def by (auto simp: of_nat_nat) linarith+
    from bits_bounds [OF n(1)] have b: "2 ^ (bits n - 1) \<le> n" "n < 2 ^ bits n" by auto
    from n(1) have bp: "0 < bits n" using bits_pos [of n] by simp
    have e: "binade a = int (bits n - 1)"
      using True bp by (simp add: binade_def n_def)
    have e1: "binade a + 1 = int (bits n)"
      using e bp by simp
    have "(2::rat) ^ (bits n - 1) \<le> of_nat n"
      using b(1) by (metis of_nat_le_iff of_nat_numeral of_nat_power)
    moreover have "(of_nat n :: rat) + 1 \<le> 2 ^ bits n"
    proof -
      from b(2) have "Suc n \<le> 2 ^ bits n" by simp
      then have "(of_nat (Suc n) :: rat) \<le> of_nat (2 ^ bits n)"
        by (rule of_nat_mono)
      then show ?thesis by simp
    qed
    ultimately show ?thesis
      unfolding e1 unfolding e pow2_nat using n(2,3) by linarith
  next
    case False
    define m where "m = nat (\<lceil>1 / a\<rceil> - 1)"
    from False assms have inv: "1 < 1 / a" by simp
    then have c: "2 \<le> \<lceil>1 / a\<rceil>" by linarith
    then have m: "0 < m" "of_nat m < 1 / a" "1 / a \<le> of_nat m + 1"
      unfolding m_def by (auto simp: of_nat_nat) linarith+
    from bits_bounds [OF m(1)] have b: "2 ^ (bits m - 1) \<le> m" "m < 2 ^ bits m" by auto
    from m(1) have bp: "0 < bits m" using bits_pos [of m] by simp
    have e: "binade a = - int (bits m)"
      using False by (simp add: binade_def m_def)
    have e1: "binade a + 1 = - int (bits m - 1)"
      using e bp by simp
    have lo: "(2::rat) ^ (bits m - 1) < 1 / a"
    proof -
      have "(2::rat) ^ (bits m - 1) \<le> of_nat m"
        using b(1) by (metis of_nat_le_iff of_nat_numeral of_nat_power)
      with m(2) show ?thesis by linarith
    qed
    have hi: "1 / a \<le> (2::rat) ^ bits m"
    proof -
      from b(2) have "Suc m \<le> 2 ^ bits m" by simp
      then have "(of_nat (Suc m) :: rat) \<le> of_nat (2 ^ bits m)"
        by (rule of_nat_mono)
      with m(3) show ?thesis by simp
    qed
    note p1 = pow2_neg_nat [of "bits m"]
    note p2 = pow2_neg_nat [of "bits m - 1"]
    from hi assms have "1 / 2 ^ bits m \<le> a"
      by (simp add: field_simps)
    moreover from lo assms have "a < 1 / 2 ^ (bits m - 1)"
      by (simp add: field_simps)
    ultimately show ?thesis
      unfolding e1 unfolding e p1 p2 by simp
  qed
  then show "pow2 (binade a) \<le> a" and "a < pow2 (binade a + 1)" by simp_all
qed

lemma round_even_ge: "of_int i \<le> q \<Longrightarrow> i \<le> round_even q"
  unfolding round_even_def Let_def by (auto simp: le_floor_iff) linarith+

lemma round_even_le: "q \<le> of_int j \<Longrightarrow> round_even q \<le> j"
  unfolding round_even_def Let_def by (auto) linarith+



lemma ulp_pos: "0 < ulp a"
  by (simp add: ulp_def pow2_pos)

lemma binade_small:
  assumes "0 < x" and "x < 9007199254740992"
  shows "binade x \<le> 52"
proof -
  have "pow2 53 = 9007199254740992"
    by (simp add: pow2_def)
  with binade_bounds(1) [OF assms(1)] assms(2) have "pow2 (binade x) < pow2 53"
    by simp
  from pow2_less [OF this] show ?thesis by simp
qed

lemma ulp_inverse:
  assumes "binade a \<le> 52"
  shows "1 / ulp a = of_int (2 ^ nat (52 - max (binade a) (- 1022)))"
proof -
  have "max (binade a) (- 1022) - 52 = - int (nat (52 - max (binade a) (- 1022)))"
    using assms by simp
  then have "ulp a = 1 / 2 ^ nat (52 - max (binade a) (- 1022))"
    unfolding ulp_def by (simp only: pow2_neg_nat)
  then show ?thesis by simp
qed

lemma round_double_between:
  assumes "0 < x" and "x < 9007199254740992"
    and "of_int l \<le> x" and "x \<le> of_int h" and "h \<le> 9007199254740992"
  shows "\<exists>v. round_double x = Num v \<and> of_int l \<le> v \<and> v \<le> of_int h"
proof -
  define K :: int where "K = 2 ^ nat (52 - max (binade x) (- 1022))"
  define r where "r = round_even (x / ulp x)"
  have u: "0 < ulp x" by (rule ulp_pos)
  have K: "1 / ulp x = of_int K"
    unfolding K_def by (rule ulp_inverse [OF binade_small [OF assms(1,2)]])
  then have Ku: "of_int K * ulp x = 1"
    using u by (simp add: field_simps)
  have "of_int (l * K) = of_int l * (1 / ulp x)"
    unfolding K by simp
  also have "\<dots> \<le> x * (1 / ulp x)"
    using assms(3) u by (intro mult_right_mono) simp_all
  finally have "of_int (l * K) \<le> x / ulp x" by simp
  from round_even_ge [OF this] have lo: "l * K \<le> r"
    unfolding r_def .
  have "x * (1 / ulp x) \<le> of_int h * (1 / ulp x)"
    using assms(4) u by (intro mult_right_mono) simp_all
  also have "\<dots> = of_int (h * K)"
    unfolding K by simp
  finally have "x / ulp x \<le> of_int (h * K)" by simp
  from round_even_le [OF this] have hi: "r \<le> h * K"
    unfolding r_def .
  have "of_int l = of_int (l * K) * ulp x"
    using Ku by simp
  also have "\<dots> \<le> of_int r * ulp x"
  proof (rule mult_right_mono)
    show "(of_int (l * K) :: rat) \<le> of_int r"
      using lo by (simp only: of_int_le_iff)
    show "0 \<le> ulp x" using u by simp
  qed
  finally have vlo: "of_int l \<le> of_int r * ulp x" .
  have "of_int r * ulp x \<le> of_int (h * K) * ulp x"
  proof (rule mult_right_mono)
    show "(of_int r :: rat) \<le> of_int (h * K)"
      using hi by (simp only: of_int_le_iff)
    show "0 \<le> ulp x" using u by simp
  qed
  also have "\<dots> = of_int h"
    using Ku by simp
  finally have vhi: "of_int r * ulp x \<le> of_int h" .
  have "(of_int h :: rat) \<le> of_int 9007199254740992"
    using assms(5) by (simp only: of_int_le_iff)
  with vhi have "of_int r * ulp x \<le> 9007199254740992" by simp
  moreover have "(9007199254740992 :: rat) < pow2 1024"
    by (simp add: pow2_def)
  ultimately have "\<not> pow2 1024 \<le> of_int r * ulp x" by simp
  then have "round_double x = Num (of_int r * ulp x)"
    using assms(1) by (simp add: round_double_def Let_def r_def)
  with vlo vhi show ?thesis by simp
qed

lemma round_double_0: "round_double 0 = Num 0"
  by (simp add: round_double_def)

lemma round_double_minus: "round_double (- x) = js_neg (round_double x)"
  by (simp add: round_double_def Let_def)

lemma round_double_of_nat:
  assumes "n < 9007199254740992"
  shows "round_double (of_nat n) = Num (of_nat n)"
proof (cases "n = 0")
  case True
  then show ?thesis by (simp add: round_double_0)
next
  case False
  have "(of_nat n :: rat) < of_nat 9007199254740992"
    using assms by (simp only: of_nat_less_iff)
  then have lt: "(of_nat n :: rat) < 9007199254740992" by simp
  have le: "int n \<le> 9007199254740992" using assms by simp
  from round_double_between [of "of_nat n" "int n" "int n"] False lt le
  show ?thesis by auto
qed

lemma round_double_positive:
  assumes "0 < x" and "pow2 (- 1022) \<le> x"
  shows "js_gt0 (round_double x)"
proof -
  from binade_bounds(2) [OF assms(1)] assms(2) have "pow2 (- 1022) < pow2 (binade x + 1)"
    by simp
  from pow2_less [OF this] have e: "- 1022 \<le> binade x" by simp
  then have "ulp x = pow2 (binade x - 52)"
    by (simp add: ulp_def)
  also have "\<dots> \<le> pow2 (binade x)"
    by (rule pow2_mono) simp
  also have "\<dots> \<le> x"
    by (rule binade_bounds(1) [OF assms(1)])
  finally have "of_int 1 \<le> x / ulp x"
    using ulp_pos [of x] by (simp add: field_simps)
  from round_even_ge [OF this] have "0 < of_int (round_even (x / ulp x)) * ulp x"
    using ulp_pos [of x] by simp
  then show ?thesis
    using assms(1) by (simp add: round_double_def Let_def)
qed

lemma round_double_nonpositive:
  assumes "x \<le> 0"
  shows "\<not> js_gt0 (round_double x)"
proof (cases "x = 0")
  case True
  then show ?thesis by (simp add: round_double_0)
next
  case False
  have "of_int 0 \<le> \<bar>x\<bar> / ulp \<bar>x\<bar>"
    using ulp_pos [of "\<bar>x\<bar>"] by simp
  from round_even_ge [OF this] have "0 \<le> of_int (round_even (\<bar>x\<bar> / ulp \<bar>x\<bar>)) * ulp \<bar>x\<bar>"
    using ulp_pos [of "\<bar>x\<bar>"] by simp
  then show ?thesis
    using assms False by (simp add: round_double_def Let_def)
qed





section \<open>Lemmas about one event and about a run\<close>

lemma run_events_invariant:
  assumes "\<And>e s s'. P s \<Longrightarrow> step len e s = Some s' \<Longrightarrow> P s'"
    and "P s" and "run_events len es s = Some s'"
  shows "P s'"
  using assms(2,3)
proof (induction es arbitrary: s)
  case Nil
  then show ?case by simp
next
  case (Cons e es)
  then show ?case
    by (auto split: option.splits intro: assms(1))
qed

text \<open>What one event leaves alone.\<close>

lemma step_config:
  "step len e s = Some s' \<Longrightarrow>
     throttleRequests s' = throttleRequests s \<and>
     totalRequests (results s') = totalRequests (results s) \<and>
     timeWindowSeconds (results s') = timeWindowSeconds (results s)"
  by (cases e) (auto simp: Let_def split: if_splits phase.splits)

lemma run_events_config:
  assumes "run_events len es s = Some s'"
  shows "throttleRequests s' = throttleRequests s \<and>
     totalRequests (results s') = totalRequests (results s) \<and>
     timeWindowSeconds (results s') = timeWindowSeconds (results s)"
  using assms
proof (induction es arbitrary: s)
  case Nil
  then show ?case by simp
next
  case (Cons e es)
  then show ?case
    by (fastforce split: option.splits dest: step_config)
qed

lemma step_counted: "counted s \<Longrightarrow> step len e s = Some s' \<Longrightarrow> counted s'"
  by (cases e) (auto simp: counted_def Let_def split: if_splits phase.splits)

lemma initial_counted: "counted (initial requests seconds)"
  by (simp add: counted_def initial_def)

lemma step_cases:
  assumes "step len e s = Some s'"
  shows "(\<exists>i t. e = Begin i t \<and> i < len \<and> phase s i = Queued \<and>
            phase s' = (phase s)(i := Running t) \<and>
            responses (results s') = responses (results s)) \<or>
         (\<exists>i t0 d. phase s i = Running t0 \<and> phase s' = (phase s)(i := Settled) \<and>
            responses (results s') = responses (results s) @ [d] \<and> requestNumber d = Suc i)"
  using assms by (cases e) (auto simp: Let_def split: if_splits phase.splits)

lemma step_numbered:
  assumes "numbered len s" and "step len e s = Some s'"
  shows "numbered len s'"
  using step_cases [OF assms(2)]
proof (elim disjE exE conjE)
  fix i t
  assume h: "phase s i = Queued" "i < len" "phase s' = (phase s)(i := Running t)"
    "responses (results s') = responses (results s)"
  have "{j. phase s' j = Settled} = {j. phase s j = Settled}"
    using h(1,3) by auto
  moreover have "{j. phase s' j \<noteq> Queued} = insert i {j. phase s j \<noteq> Queued}"
    using h(3) by auto
  ultimately show ?thesis
    using assms(1) h(2,4) unfolding numbered_def by simp
next
  fix i t0 d
  assume h: "phase s i = Running t0" "phase s' = (phase s)(i := Settled)"
    "responses (results s') = responses (results s) @ [d]" "requestNumber d = Suc i"
  have settled: "{j. phase s' j = Settled} = insert i {j. phase s j = Settled}"
    using h(2) by auto
  have busy: "{j. phase s' j \<noteq> Queued} = {j. phase s j \<noteq> Queued}"
    using h(1,2) by auto
  have "i \<notin> {j. phase s j = Settled}"
    using h(1) by simp
  then have fresh: "Suc i \<notin> set (map requestNumber (responses (results s)))"
    using assms(1) unfolding numbered_def by auto
  show ?thesis
    using assms(1) h(3,4) fresh unfolding numbered_def settled busy by simp
qed

lemma initial_numbered: "numbered len (initial requests seconds)"
  by (simp add: numbered_def initial_def)

lemma run_events_counted:
  "run_events len es (initial requests seconds) = Some s \<Longrightarrow> counted s"
  by (rule run_events_invariant [where P = counted, OF step_counted initial_counted])

lemma run_events_numbered:
  "run_events len es (initial requests seconds) = Some s \<Longrightarrow> numbered len s"
  by (rule run_events_invariant [where P = "numbered len", OF step_numbered initial_numbered])

lemma loadTest_resolved:
  assumes "loadTest url requests seconds w = Some (Inr r)"
  obtains s where
    "run_events (toLength requests) (events w) (initial requests seconds) = Some s"
    "\<forall>i<toLength requests. phase s i = Settled"
    "r = (results s)\<lparr>totalTimeTakenMs := endTime w - startTime w\<rparr>"
    "toLength requests \<le> 4294967295"
  using assms
  by (auto simp: loadTest_def Let_def list_all_iff split: if_splits option.splits)

lemma toLength_of_nat:
  "toLength (Num (of_nat n)) = (if 9007199254740991 \<le> n then 9007199254740991 else n)"
proof -
  have "((9007199254740991::rat) \<le> of_nat n) = ((9007199254740991::nat) \<le> n)"
    by (metis of_nat_le_iff of_nat_numeral)
  then show ?thesis by auto
qed

lemma settled_all:
  assumes "numbered len s" and "\<forall>i<len. phase s i = Settled"
  shows "set (map requestNumber (responses (results s))) = {1..len}"
    and "distinct (map requestNumber (responses (results s)))"
    and "length (responses (results s)) = len"
proof -
  have "{i. phase s i = Settled} = {0..<len}"
    using assms unfolding numbered_def by auto
  then show set_eq: "set (map requestNumber (responses (results s))) = {1..len}"
    using assms(1) unfolding numbered_def
    by (simp add: image_Suc_atLeastLessThan atLeastLessThanSuc_atLeastAtMost)
  show d: "distinct (map requestNumber (responses (results s)))"
    using assms(1) unfolding numbered_def by simp
  have "length (map requestNumber (responses (results s))) = card {1..len}"
    using distinct_card [OF d] set_eq by simp
  then show "length (responses (results s)) = len" by simp
qed

lemma counted_sum:
  "counted s \<Longrightarrow>
     successfulRequests (results s) + failedRequests (results s) = length (responses (results s))"
  unfolding counted_def by (simp add: sum_length_filter_compl)

lemma step_Running:
  assumes "step len e s = Some s'" and "phase s' i = Running t0"
  shows "e = Begin i t0 \<or> phase s i = Running t0"
  using assms by (cases e) (auto simp: Let_def split: if_splits phase.splits)

lemma step_responses_mono:
  "step len e s = Some s' \<Longrightarrow> set (responses (results s)) \<subseteq> set (responses (results s'))"
  by (cases e) (auto simp: Let_def split: if_splits phase.splits)

lemma run_events_responses_mono:
  "run_events len es s = Some s' \<Longrightarrow>
     set (responses (results s)) \<subseteq> set (responses (results s'))"
proof (induction es arbitrary: s)
  case Nil
  then show ?case by simp
next
  case (Cons e es)
  from Cons.prems obtain s1 where s1: "step len e s = Some s1" "run_events len es s1 = Some s'"
    by (auto split: option.splits)
  from step_responses_mono [OF s1(1)] Cons.IH [OF s1(2)] show ?case by blast
qed

lemma step_Rejected:
  assumes "step len (Rejected i now err) s = Some s'"
  shows "\<exists>t0. phase s i = Running t0 \<and>
     \<lparr>requestNumber = Suc i, timeMs = now - t0,
      status = (case response err of Some resp \<Rightarrow> Code (response.status resp) | None \<Rightarrow> NA),
      success = False,
      sizeBytes = (case response err of Some resp \<Rightarrow> getResponseSize (Some resp) | None \<Rightarrow> Num 0),
      error = Some (message err)\<rparr> \<in> set (responses (results s'))"
  using assms by (auto simp: Let_def split: phase.splits)

lemma step_Fulfilled:
  assumes "step len (Fulfilled i now resp) s = Some s'"
  shows "\<exists>t0. phase s i = Running t0 \<and>
     \<lparr>requestNumber = Suc i, timeMs = now - t0,
      status = Code (response.status resp),
      success = True,
      sizeBytes = getResponseSize (Some resp),
      error = None\<rparr> \<in> set (responses (results s'))"
  using assms by (auto simp: Let_def split: phase.splits)

lemma run_events_Rejected:
  assumes "run_events len es s = Some s'" and "Rejected i now err \<in> set es"
  shows "\<exists>t0. (Begin i t0 \<in> set es \<or> phase s i = Running t0) \<and>
     \<lparr>requestNumber = Suc i, timeMs = now - t0,
      status = (case response err of Some resp \<Rightarrow> Code (response.status resp) | None \<Rightarrow> NA),
      success = False,
      sizeBytes = (case response err of Some resp \<Rightarrow> getResponseSize (Some resp) | None \<Rightarrow> Num 0),
      error = Some (message err)\<rparr> \<in> set (responses (results s'))"
  using assms
proof (induction es arbitrary: s)
  case Nil
  then show ?case by simp
next
  case (Cons e es)
  from Cons.prems(1) obtain s1 where s1: "step len e s = Some s1" "run_events len es s1 = Some s'"
    by (auto split: option.splits)
  show ?case
  proof (cases "e = Rejected i now err")
    case True
    from step_Rejected [OF s1(1) [unfolded True]] run_events_responses_mono [OF s1(2)]
    show ?thesis by blast
  next
    case False
    with Cons.prems(2) have "Rejected i now err \<in> set es" by simp
    from Cons.IH [OF s1(2) this] obtain t0 where
      t0: "Begin i t0 \<in> set es \<or> phase s1 i = Running t0" and
      d: "\<lparr>requestNumber = Suc i, timeMs = now - t0,
      status = (case response err of Some resp \<Rightarrow> Code (response.status resp) | None \<Rightarrow> NA),
      success = False,
      sizeBytes = (case response err of Some resp \<Rightarrow> getResponseSize (Some resp) | None \<Rightarrow> Num 0),
      error = Some (message err)\<rparr> \<in> set (responses (results s'))"
      by blast
    from t0 step_Running [OF s1(1)] have "Begin i t0 \<in> set (e # es) \<or> phase s i = Running t0"
      by auto
    with d show ?thesis by blast
  qed
qed

lemma run_events_Fulfilled:
  assumes "run_events len es s = Some s'" and "Fulfilled i now resp \<in> set es"
  shows "\<exists>t0. (Begin i t0 \<in> set es \<or> phase s i = Running t0) \<and>
     \<lparr>requestNumber = Suc i, timeMs = now - t0,
      status = Code (response.status resp),
      success = True,
      sizeBytes = getResponseSize (Some resp),
      error = None\<rparr> \<in> set (responses (results s'))"
  using assms
proof (induction es arbitrary: s)
  case Nil
  then show ?case by simp
next
  case (Cons e es)
  from Cons.prems(1) obtain s1 where s1: "step len e s = Some s1" "run_events len es s1 = Some s'"
    by (auto split: option.splits)
  show ?case
  proof (cases "e = Fulfilled i now resp")
    case True
    from step_Fulfilled [OF s1(1) [unfolded True]] run_events_responses_mono [OF s1(2)]
    show ?thesis by blast
  next
    case False
    with Cons.prems(2) have "Fulfilled i now resp \<in> set es" by simp
    from Cons.IH [OF s1(2) this] obtain t0 where
      t0: "Begin i t0 \<in> set es \<or> phase s1 i = Running t0" and
      d: "\<lparr>requestNumber = Suc i, timeMs = now - t0,
      status = Code (response.status resp),
      success = True,
      sizeBytes = getResponseSize (Some resp),
      error = None\<rparr> \<in> set (responses (results s'))"
      by blast
    from t0 step_Running [OF s1(1)] have "Begin i t0 \<in> set (e # es) \<or> phase s i = Running t0"
      by auto
    with d show ?thesis by blast
  qed
qed

lemma initial_phase: "phase (initial requests seconds) i = Queued"
  by (simp add: initial_def)

lemma round_double_of_int:
  assumes "- 9007199254740992 < k" and "k < 9007199254740992"
  shows "round_double (of_int k) = Num (of_int k)"
proof (cases "0 \<le> k")
  case True
  with assms(2) have "nat k < 9007199254740992" by simp
  from round_double_of_nat [OF this] True show ?thesis by simp
next
  case False
  with assms(1) have "nat (- k) < 9007199254740992" by simp
  from round_double_of_nat [OF this] False have "round_double (- of_int k) = Num (- of_int k)"
    by simp
  then show ?thesis
    unfolding round_double_minus by (cases "round_double (of_int k)") simp_all
qed

lemma js_eq_last:
  assumes "n \<le> 9007199254740992"
  shows "js_eq (Num (of_nat i)) (js_sub (Num (of_nat n)) (Num 1)) = (Suc i = n)"
proof -
  have "(of_nat n :: rat) + - 1 = of_int (int n - 1)"
    by simp
  moreover have "round_double (of_int (int n - 1)) = Num (of_int (int n - 1))"
    using assms by (intro round_double_of_int) simp_all
  ultimately have sub: "js_sub (Num (of_nat n)) (Num 1) = Num (of_int (int n - 1))"
    by (simp only: js_sub_def js_neg.simps js_add.simps)
  have "((of_nat i :: rat) = of_int (int n - 1)) = ((of_int (int i) :: rat) = of_int (int n - 1))"
    by simp
  also have "\<dots> = (int i = int n - 1)"
    by (rule of_int_eq_iff)
  also have "\<dots> = (Suc i = n)"
    by auto
  finally show ?thesis
    unfolding sub by (simp add: js_eq_def)
qed

lemmas js_eq_last_simps = js_eq_last js_eq_last [of _ 0, simplified]

lemma step_Begin:
  assumes "step len (Begin i t) s = Some s'" and "totalRequests (results s) = Num (of_nat n)"
    and "n \<le> 9007199254740992"
  shows "phase s i = Queued" and "phase s' i = Running t"
    and "i = 0 \<Longrightarrow> firstQueryStartTime (results s') = Some t"
    and "Suc i = n \<Longrightarrow> lastQueryStartTime (results s') = Some t"
    and "i \<noteq> 0 \<Longrightarrow> firstQueryStartTime (results s') = firstQueryStartTime (results s)"
    and "Suc i \<noteq> n \<Longrightarrow> lastQueryStartTime (results s') = lastQueryStartTime (results s)"
  using assms by (auto simp: Let_def js_eq_last_simps split: if_splits)

lemma step_settle_marks:
  assumes "step len e s = Some s'" and "\<And>i t. e \<noteq> Begin i t"
  shows "firstQueryStartTime (results s') = firstQueryStartTime (results s)"
    and "lastQueryStartTime (results s') = lastQueryStartTime (results s)"
  using assms by (cases e; auto simp: Let_def split: if_splits phase.splits)+

lemma step_started:
  assumes "step len e s = Some s'" and "phase s i \<noteq> Queued"
  shows "phase s' i \<noteq> Queued"
  using assms by (cases e) (auto simp: Let_def split: if_splits phase.splits)

lemma step_Queued:
  assumes "step len e s = Some s'" and "phase s i = Queued" and "phase s' i \<noteq> Queued"
  shows "\<exists>t. e = Begin i t"
  using assms by (cases e) (auto simp: Let_def split: if_splits phase.splits)

lemma step_marks_stable:
  assumes "step len e s = Some s'" and "totalRequests (results s) = Num (of_nat n)"
    and "n \<le> 9007199254740992" and "phase s i \<noteq> Queued"
  shows "(i = 0 \<longrightarrow> firstQueryStartTime (results s') = firstQueryStartTime (results s)) \<and>
         (Suc i = n \<longrightarrow> lastQueryStartTime (results s') = lastQueryStartTime (results s)) \<and>
         (\<forall>t. e \<noteq> Begin i t)"
proof (cases "\<exists>j t. e = Begin j t")
  case True
  then obtain j t where e: "e = Begin j t" by blast
  from step_Begin(1) [OF assms(1) [unfolded e] assms(2,3)] assms(4) have "j \<noteq> i" by auto
  with step_Begin(5,6) [OF assms(1) [unfolded e] assms(2,3)] e show ?thesis by auto
next
  case False
  with step_settle_marks [OF assms(1)] show ?thesis by auto
qed

lemma run_events_marks_stable:
  assumes "run_events len es s = Some s'" and "totalRequests (results s) = Num (of_nat n)"
    and "n \<le> 9007199254740992" and "phase s i \<noteq> Queued"
  shows "(i = 0 \<longrightarrow> firstQueryStartTime (results s') = firstQueryStartTime (results s)) \<and>
         (Suc i = n \<longrightarrow> lastQueryStartTime (results s') = lastQueryStartTime (results s)) \<and>
         (\<forall>t. Begin i t \<notin> set es)"
  using assms
proof (induction es arbitrary: s)
  case Nil
  then show ?case by simp
next
  case (Cons e es)
  from Cons.prems(1) obtain s1 where s1: "step len e s = Some s1" "run_events len es s1 = Some s'"
    by (auto split: option.splits)
  have total: "totalRequests (results s1) = Num (of_nat n)"
    using step_config [OF s1(1)] Cons.prems(2) by simp
  have started: "phase s1 i \<noteq> Queued"
    by (rule step_started [OF s1(1) Cons.prems(4)])
  from Cons.IH [OF s1(2) total Cons.prems(3) started]
    step_marks_stable [OF s1(1) Cons.prems(2,3,4)]
  show ?case by auto
qed

lemma run_events_marks:
  assumes "run_events len es s = Some s'" and "totalRequests (results s) = Num (of_nat n)"
    and "n \<le> 9007199254740992" and "phase s i = Queued" and "phase s' i \<noteq> Queued"
  shows "\<exists>t0. Begin i t0 \<in> set es \<and> (\<forall>t. Begin i t \<in> set es \<longrightarrow> t = t0) \<and>
           (i = 0 \<longrightarrow> firstQueryStartTime (results s') = Some t0) \<and>
           (Suc i = n \<longrightarrow> lastQueryStartTime (results s') = Some t0)"
  using assms
proof (induction es arbitrary: s)
  case Nil
  then show ?case by simp
next
  case (Cons e es)
  from Cons.prems(1) obtain s1 where s1: "step len e s = Some s1" "run_events len es s1 = Some s'"
    by (auto split: option.splits)
  have total: "totalRequests (results s1) = Num (of_nat n)"
    using step_config [OF s1(1)] Cons.prems(2) by simp
  show ?case
  proof (cases "phase s1 i = Queued")
    case True
    have "\<And>t. e \<noteq> Begin i t"
    proof
      fix t assume "e = Begin i t"
      with step_Begin(2) [OF s1(1) [unfolded this] Cons.prems(2,3)] True show False by simp
    qed
    with Cons.IH [OF s1(2) total Cons.prems(3) True Cons.prems(5)] show ?thesis by auto
  next
    case False
    from step_Queued [OF s1(1) Cons.prems(4) False] obtain t0 where e: "e = Begin i t0" by blast
    note b = step_Begin(3,4) [OF s1(1) [unfolded e] Cons.prems(2,3)]
    from run_events_marks_stable [OF s1(2) total Cons.prems(3) False] b e
    show ?thesis by auto
  qed
qed

lemma validateInputs_None:
  assumes "validateInputs url requests seconds = None"
  obtains n t where "0 < n" "requests = Num (of_nat n)" "0 < t" "seconds = Num t"
proof -
  from assms have r: "isInteger requests" "\<not> js_le0 requests"
    and s: "isFinite seconds" "\<not> js_le0 seconds"
    by (auto simp: validateInputs_def split: if_splits)
  from r obtain a where a: "requests = Num a" "of_int \<lfloor>a\<rfloor> = a" "0 < a"
    by (cases requests) auto
  from a(2,3) have pos: "0 < \<lfloor>a\<rfloor>"
    by (metis of_int_0_less_iff)
  then have "of_nat (nat \<lfloor>a\<rfloor>) = a"
    using a(2) by (metis int_nat_eq less_le_not_le of_int_of_nat_eq)
  moreover from pos have "0 < nat \<lfloor>a\<rfloor>" by simp
  moreover from s obtain t where "seconds = Num t" "0 < t"
    by (cases seconds) auto
  ultimately show ?thesis using a(1) that by metis
qed

lemma foldl_timeMs:
  "foldl (\<lambda>sum res. sum + timeMs res) a ds = a + sum_list (map timeMs ds)"
  by (induction ds arbitrary: a) auto

lemma loadTest_shape:
  assumes "0 < n" and "loadTest url (Num (of_nat n)) seconds w = Some (Inr r)"
  shows "successfulRequests r = length (filter success (responses r))"
    and "failedRequests r = length (filter (\<lambda>d. \<not> success d) (responses r))"
    and "totalResponseSizeBytes r = foldl js_add (Num 0) (map sizeBytes (responses r))"
    and "length (responses r) = n"
    and "distinct (map requestNumber (responses r))"
    and "set (map requestNumber (responses r)) = {1..n}"
    and "totalRequests r = Num (of_nat n)"
    and "totalTimeTakenMs r = endTime w - startTime w"
proof -
  from assms(2) obtain s where
    run: "run_events (toLength (Num (of_nat n))) (events w) (initial (Num (of_nat n)) seconds) = Some s"
    and all: "\<forall>i<toLength (Num (of_nat n)). phase s i = Settled"
    and r: "r = (results s)\<lparr>totalTimeTakenMs := endTime w - startTime w\<rparr>"
    and le: "toLength (Num (of_nat n)) \<le> 4294967295"
    by (rule loadTest_resolved)
  from le have len: "toLength (Num (of_nat n)) = n"
    unfolding toLength_of_nat by (simp split: if_splits)
  note c = run_events_counted [OF run, unfolded counted_def]
  note m = settled_all [OF run_events_numbered [OF run] all, unfolded len]
  show "successfulRequests r = length (filter success (responses r))"
    and "failedRequests r = length (filter (\<lambda>d. \<not> success d) (responses r))"
    and "totalResponseSizeBytes r = foldl js_add (Num 0) (map sizeBytes (responses r))"
    using c r by simp_all
  show "length (responses r) = n" and "distinct (map requestNumber (responses r))"
    and "set (map requestNumber (responses r)) = {1..n}"
    using m r by simp_all
  show "totalRequests r = Num (of_nat n)"
    using run_events_config [OF run] r by (simp add: initial_def)
  show "totalTimeTakenMs r = endTime w - startTime w"
    using r by simp
qed

lemma js_gt0_seconds: "js_gt0 (js_div (Num (of_int ms)) (Num 1000)) = (0 < ms)"
proof (cases "0 < ms")
  case True
  then have "1 \<le> ms" by simp
  then have "(of_int 1 :: rat) \<le> of_int ms"
    by (simp only: of_int_le_iff)
  then have "(1 :: rat) / 1000 \<le> of_int ms / 1000"
    by simp
  moreover have "pow2 (- 1022) \<le> 1 / 1000"
  proof -
    have "pow2 (- 1022) \<le> pow2 (- 10)"
      by (rule pow2_mono) simp
    also have "pow2 (- 10) = 1 / 1024"
      by (simp add: pow2_def)
    also have "(1 :: rat) / 1024 \<le> 1 / 1000"
      by simp
    finally show ?thesis .
  qed
  ultimately have "pow2 (- 1022) \<le> of_int ms / 1000"
    by (rule order_trans [rotated])
  moreover have "(0 :: rat) < of_int ms / 1000"
    using True by simp
  ultimately have "js_gt0 (round_double (of_int ms / 1000))"
    by (intro round_double_positive)
  with True show ?thesis by simp
next
  case False
  then have "(of_int ms :: rat) / 1000 \<le> 0"
    by simp
  from round_double_nonpositive [OF this] False show ?thesis by simp
qed

lemma run_events_no_Begin:
  assumes "run_events len es s = Some s'" and "phase s i \<noteq> Queued"
  shows "Begin i t \<notin> set es"
  using assms
proof (induction es arbitrary: s)
  case Nil
  then show ?case by simp
next
  case (Cons e es)
  from Cons.prems(1) obtain s1 where s1: "step len e s = Some s1" "run_events len es s1 = Some s'"
    by (auto split: option.splits)
  have "e \<noteq> Begin i t"
    using s1(1) Cons.prems(2) by (auto split: if_splits)
  moreover have "Begin i t \<notin> set es"
    by (rule Cons.IH [OF s1(2) step_started [OF s1(1) Cons.prems(2)]])
  ultimately show ?case by simp
qed

lemma run_events_Begin_once:
  assumes "run_events len es s = Some s'" and "phase s i = Queued"
    and "Begin i t \<in> set es" and "Begin i t' \<in> set es"
  shows "t = t'"
  using assms
proof (induction es arbitrary: s)
  case Nil
  then show ?case by simp
next
  case (Cons e es)
  from Cons.prems(1) obtain s1 where s1: "step len e s = Some s1" "run_events len es s1 = Some s'"
    by (auto split: option.splits)
  show ?case
  proof (cases "phase s1 i = Queued")
    case True
    have "\<And>u. e \<noteq> Begin i u"
      using s1(1) True by (auto simp: Let_def split: if_splits)
    with Cons.prems(3,4) have "Begin i t \<in> set es" "Begin i t' \<in> set es" by auto
    then show ?thesis by (rule Cons.IH [OF s1(2) True])
  next
    case False
    from step_Queued [OF s1(1) Cons.prems(2) False] obtain t0 where e: "e = Begin i t0" by blast
    from run_events_no_Begin [OF s1(2) False] Cons.prems(3,4) e show ?thesis by auto
  qed
qed

lemma loadTest_run:
  assumes "loadTest url requests seconds w = Some (Inr r)"
  obtains s where
    "run_events (toLength requests) (events w) (initial requests seconds) = Some s"
    "responses r = responses (results s)"
    "totalResponseSizeBytes r = totalResponseSizeBytes (results s)"
    "firstQueryStartTime r = firstQueryStartTime (results s)"
    "lastQueryStartTime r = lastQueryStartTime (results s)"
    "\<forall>i<toLength requests. phase s i = Settled"
proof -
  from assms obtain s where
    "run_events (toLength requests) (events w) (initial requests seconds) = Some s"
    "\<forall>i<toLength requests. phase s i = Settled"
    "r = (results s)\<lparr>totalTimeTakenMs := endTime w - startTime w\<rparr>"
    by (rule loadTest_resolved)
  then show ?thesis using that by simp
qed

lemma loadTest_length:
  assumes "loadTest url requests seconds w = Some (Inr r)"
  shows "length (responses r) = toLength requests"
proof -
  from assms obtain s where
    run: "run_events (toLength requests) (events w) (initial requests seconds) = Some s"
    and r: "responses r = responses (results s)"
    and all: "\<forall>i<toLength requests. phase s i = Settled"
    by (rule loadTest_run)
  from settled_all(3) [OF run_events_numbered [OF run] all] r show ?thesis by simp
qed

lemma filter_distinct_key:
  "distinct (map f xs) \<Longrightarrow>
     length (filter (\<lambda>d. f d = k) xs) = (if k \<in> set (map f xs) then 1 else 0)"
  by (induction xs) (auto simp: image_iff)

lemma run_events_first_last:
  assumes "run_events len es (initial (Num (of_nat n)) seconds) = Some s"
    and "n \<le> 9007199254740992" and "phase s i \<noteq> Queued"
  shows "\<exists>t0. Begin i t0 \<in> set es \<and> (\<forall>t. Begin i t \<in> set es \<longrightarrow> t = t0) \<and>
           (i = 0 \<longrightarrow> firstQueryStartTime (results s) = Some t0) \<and>
           (Suc i = n \<longrightarrow> lastQueryStartTime (results s) = Some t0)"
proof -
  have "totalRequests (results (initial (Num (of_nat n)) seconds)) = Num (of_nat n)"
    by (simp add: initial_def)
  from run_events_marks [OF assms(1) this assms(2) initial_phase assms(3)] show ?thesis .
qed

section \<open>A run that completes, for every number of requests\<close>

lemma run_events_append:
  "run_events len (xs @ ys) s =
     (case run_events len xs s of None \<Rightarrow> None | Some s' \<Rightarrow> run_events len ys s')"
  by (induction xs arbitrary: s) (auto split: option.splits)

lemma one_by_one_Suc:
  "one_by_one outcome (Suc k) =
     one_by_one outcome k @
       [Begin k (int k),
        (case outcome k of
           Inl resp \<Rightarrow> Fulfilled k (int k) resp
         | Inr err \<Rightarrow> Rejected k (int k) err)]"
  by (simp add: one_by_one_def)

lemma run_one_by_one:
  assumes "k \<le> len"
  shows "\<exists>s. run_events len (one_by_one outcome k) (initial requests seconds) = Some s \<and>
             phase s = (\<lambda>i. if i < k then Settled else Queued)"
  using assms
proof (induction k)
  case 0
  then show ?case by (simp add: one_by_one_def initial_def)
next
  case (Suc k)
  then obtain s where
    s: "run_events len (one_by_one outcome k) (initial requests seconds) = Some s"
    "phase s = (\<lambda>i. if i < k then Settled else Queued)"
    by auto
  from Suc.prems s(2) obtain s1 where
    s1: "step len (Begin k (int k)) s = Some s1" "phase s1 = (phase s)(k := Running (int k))"
    by (auto simp: Let_def)
  from s1(2) obtain s2 where
    s2: "step len (case outcome k of
           Inl resp \<Rightarrow> Fulfilled k (int k) resp
         | Inr err \<Rightarrow> Rejected k (int k) err) s1 = Some s2"
    "phase s2 = (phase s1)(k := Settled)"
    by (cases "outcome k") (auto simp: Let_def)
  have "phase s2 = (\<lambda>i. if i < Suc k then Settled else Queued)"
    unfolding s2(2) s1(2) s(2) by auto
  with s(1) s1(1) s2(1) show ?case
    by (simp add: one_by_one_Suc run_events_append)
qed

lemma loadTest_one_by_one:
  assumes "n \<le> 4294967295"
  shows "\<exists>r. loadTest url (Num (of_nat n)) seconds
               \<lparr>startTime = t0, events = one_by_one outcome n, endTime = t1\<rparr> = Some (Inr r)"
proof -
  from assms have len: "toLength (Num (of_nat n)) = n"
    unfolding toLength_of_nat by simp
  from run_one_by_one [of n n outcome "Num (of_nat n)" seconds] obtain s where
    "run_events n (one_by_one outcome n) (initial (Num (of_nat n)) seconds) = Some s"
    "phase s = (\<lambda>i. if i < n then Settled else Queued)"
    by auto
  with assms len show ?thesis
    by (simp add: loadTest_def Let_def list_all_iff del: toLength.simps)
qed

section \<open>The outcome of a request does not change the schedule\<close>

lemma alike_Running:
  assumes "alike s s'" and "phase s i = Running t"
  shows "\<exists>t'. phase s' i = Running t'"
  using assms unfolding alike_def by (cases "phase s' i") (auto dest: spec [of _ i])

lemma step_alike:
  assumes "alike s s'" and "shape e = shape e'" and "step len e s = Some s1"
  shows "\<exists>s1'. step len e' s' = Some s1' \<and> alike s1 s1'"
proof (cases e)
  case (Begin i t)
  with assms(2) obtain t' where e': "e' = Begin i t'" by (cases e') auto
  from assms(3) Begin have q: "i < len" "phase s i = Queued"
    and s1: "phase s1 = (phase s)(i := Running t)"
    by (auto simp: Let_def split: if_splits)
  from q(2) assms(1) have q': "phase s' i = Queued" unfolding alike_def by simp
  with q(1) e' obtain s1' where "step len e' s' = Some s1'" "phase s1' = (phase s')(i := Running t')"
    by (auto simp: Let_def)
  with s1 assms(1) show ?thesis unfolding alike_def by auto
next
  case (Fulfilled i now resp)
  from assms(3) Fulfilled obtain t where r: "phase s i = Running t"
    and s1: "phase s1 = (phase s)(i := Settled)"
    by (auto simp: Let_def split: phase.splits)
  from alike_Running [OF assms(1) r] obtain t' where r': "phase s' i = Running t'" by blast
  from assms(2) Fulfilled have "(\<exists>now' resp'. e' = Fulfilled i now' resp') \<or> (\<exists>now' err'. e' = Rejected i now' err')"
    by (cases e') auto
  with r' obtain s1' where "step len e' s' = Some s1'" "phase s1' = (phase s')(i := Settled)"
    by (auto simp: Let_def)
  with s1 assms(1) show ?thesis unfolding alike_def by auto
next
  case (Rejected i now err)
  from assms(3) Rejected obtain t where r: "phase s i = Running t"
    and s1: "phase s1 = (phase s)(i := Settled)"
    by (auto simp: Let_def split: phase.splits)
  from alike_Running [OF assms(1) r] obtain t' where r': "phase s' i = Running t'" by blast
  from assms(2) Rejected have "(\<exists>now' resp'. e' = Fulfilled i now' resp') \<or> (\<exists>now' err'. e' = Rejected i now' err')"
    by (cases e') auto
  with r' obtain s1' where "step len e' s' = Some s1'" "phase s1' = (phase s')(i := Settled)"
    by (auto simp: Let_def)
  with s1 assms(1) show ?thesis unfolding alike_def by auto
qed

lemma run_events_alike:
  assumes "alike s s'" and "map shape es = map shape es'" and "run_events len es s = Some s1"
  shows "\<exists>s1'. run_events len es' s' = Some s1' \<and> alike s1 s1'"
  using assms
proof (induction es arbitrary: s s' es')
  case Nil
  then show ?case by simp
next
  case (Cons e es)
  from Cons.prems(2) obtain e' es2 where es': "es' = e' # es2" "shape e = shape e'"
    "map shape es = map shape es2"
    by (cases es') auto
  from Cons.prems(3) obtain s2 where s2: "step len e s = Some s2" "run_events len es s2 = Some s1"
    by (auto split: option.splits)
  from step_alike [OF Cons.prems(1) es'(2) s2(1)] obtain s2' where
    s2': "step len e' s' = Some s2'" "alike s2 s2'" by blast
  from Cons.IH [OF s2'(2) es'(3) s2(2)] s2'(1) es'(1) show ?case by simp
qed

lemma loadTest_alike:
  assumes "loadTest url requests seconds w = Some (Inr r)"
    and "map shape (events w') = map shape (events w)"
  shows "\<exists>r'. loadTest url requests seconds w' = Some (Inr r')"
proof -
  from assms(1) obtain s where
    run: "run_events (toLength requests) (events w) (initial requests seconds) = Some s"
    and all: "\<forall>i<toLength requests. phase s i = Settled"
    and le: "toLength requests \<le> 4294967295"
    by (rule loadTest_resolved)
  have "alike (initial requests seconds) (initial requests seconds)"
    by (simp add: alike_def)
  from run_events_alike [OF this assms(2) [symmetric] run] obtain s' where
    s': "run_events (toLength requests) (events w') (initial requests seconds) = Some s'"
    "alike s s'" by blast
  from s'(2) all have "\<forall>i<toLength requests. phase s' i = Settled"
    unfolding alike_def by simp
  with s'(1) le show ?thesis
    by (simp add: loadTest_def Let_def list_all_iff)
qed

section \<open>The order in which the limiter starts the tasks\<close>

lemma js_lt_less: "js_lt (Num (of_nat a)) m \<Longrightarrow> b \<le> a \<Longrightarrow> js_lt (Num (of_nat b)) m"
  by (cases m) auto

lemma upt_head: "i # xs = [k..<m] \<Longrightarrow> i = k \<and> xs = [Suc k..<m]"
  by (cases "k < m") (auto simp: upt_conv_Cons)

lemma submitted_Suc: "submitted m (Suc j) = submit (submitted m j) j"
  by (simp add: submitted_def)

lemma submitted_in_order: "in_order 0 len (fst (submitted m len)) (snd (submitted m len))"
proof (induction len)
  case 0
  then show ?case
    by (simp add: submitted_def throttle_def in_order_def)
next
  case (Suc j)
  obtain l due where st: "submitted m j = (l, due)"
    by (cases "submitted m j")
  with Suc have inv: "due @ queue l = [0..<j]"
    "queue l \<noteq> [] \<longrightarrow> \<not> js_lt (Num (of_nat (cur l))) (max' l)"
    "0 < cur l \<longrightarrow> js_lt (Num (of_nat (cur l - 1))) (max' l)"
    by (simp_all add: in_order_def)
  show ?case
  proof (cases "js_lt (Num (of_nat (cur l))) (max' l)")
    case True
    with inv(2) have "queue l = []" by auto
    with inv(1) True show ?thesis
      by (simp add: submitted_Suc st submit_def handleFn_def in_order_def)
  next
    case False
    with inv show ?thesis
      by (simp add: submitted_Suc st submit_def handleFn_def in_order_def)
  qed
qed

lemma settle_in_order:
  assumes "in_order k m l []" and "0 < cur l" and "settle l = (l1, due1)"
  shows "in_order k m l1 due1"
proof -
  from assms(1) have inv: "queue l = [k..<m]"
    "queue l \<noteq> [] \<longrightarrow> \<not> js_lt (Num (of_nat (cur l))) (max' l)"
    "js_lt (Num (of_nat (cur l - 1))) (max' l)"
    using assms(2) by (simp_all add: in_order_def)
  show ?thesis
  proof (cases "queue l")
    case Nil
    with assms(3) have "l1 = l\<lparr>cur := cur l - 1\<rparr>" "due1 = []"
      by (simp_all add: settle_def)
    moreover have "js_lt (Num (of_nat (cur l - 1 - 1))) (max' l)"
      by (rule js_lt_less [OF inv(3)]) simp
    ultimately show ?thesis
      using inv(1) Nil by (simp add: in_order_def del: of_nat_diff)
  next
    case (Cons i q)
    with assms(3) inv(3) have "l1 = l\<lparr>cur := cur l - 1 + 1, queue := q\<rparr>" "due1 = [i]"
      by (auto simp: settle_def handleFn_def)
    moreover from inv(2) Cons have "\<not> js_lt (Num (of_nat (cur l))) (max' l)"
      by simp
    ultimately show ?thesis
      using inv(1,3) Cons assms(2) by (simp add: in_order_def del: of_nat_diff)
  qed
qed

lemma admits_due:
  assumes "admits l (i # due) (e # es)"
  shows "\<exists>t. e = Begin i t \<and> admits l due es"
  using assms by (cases e) auto

lemma admits_settle:
  assumes "admits l [] (e # es)"
  obtains l1 due1 where "0 < cur l" and "settle l = (l1, due1)" and "admits l1 due1 es"
    and "admissions (e # es) = admissions es"
  using assms by (cases e; cases "settle l") auto

lemma admits_in_order:
  "admits l due es \<Longrightarrow> in_order k m l due \<Longrightarrow>
     map fst (admissions es) = [k..<k + length (admissions es)]"
proof (induction es arbitrary: l due k)
  case Nil
  then show ?case by simp
next
  case (Cons e es)
  show ?case
  proof (cases due)
    case Nil
    from Cons.prems(1) [unfolded Nil] obtain l1 due1 where
      s: "0 < cur l" "settle l = (l1, due1)" "admits l1 due1 es"
      and same: "admissions (e # es) = admissions es"
      by (rule admits_settle)
    from Cons.IH [OF s(3) settle_in_order [OF Cons.prems(2) [unfolded Nil] s(1,2)]]
    show ?thesis unfolding same .
  next
    case (Cons i due1)
    from admits_due [OF Cons.prems(1) [unfolded Cons]] obtain t where
      e: "e = Begin i t" and a: "admits l due1 es" by blast
    from Cons.prems(2) have "i # (due1 @ queue l) = [k..<m]"
      by (simp add: in_order_def Cons)
    from upt_head [OF this] Cons.prems(2) have i: "i = k" and inv: "in_order (Suc k) m l due1"
      by (simp_all add: in_order_def Cons)
    have "[k..<k + Suc (length (admissions es))] = k # [Suc k..<Suc k + length (admissions es)]"
      by (subst upt_rec) simp
    with Cons.IH [OF a inv] i e show ?thesis
      by simp
  qed
qed

lemma throttled_fifo:
  assumes "throttled m len es"
  shows "map fst (admissions es) = [0..<length (admissions es)]"
proof -
  obtain l due where st: "submitted m len = (l, due)"
    by (cases "submitted m len")
  with assms have "admits l due es"
    by (simp add: throttled_def)
  moreover from submitted_in_order [of len m] st have "in_order 0 len l due" by simp
  ultimately show ?thesis
    using admits_in_order [of l due es 0 len] by simp
qed

section \<open>The example runs, evaluated\<close>

lemma digits_small: "n < 10 \<Longrightarrow> digits n = [digit_char n]"
  by (simp add: digits.simps)

lemma digits_large: "10 \<le> n \<Longrightarrow> digits n = digits (n div 10) @ [digit_char (n mod 10)]"
  by (subst digits.simps) simp

lemma floor_rat_numeral: "\<lfloor>(numeral a :: rat) / numeral b\<rfloor> = numeral a div numeral b"
  using floor_divide_of_int_eq [of "numeral a" "numeral b", where ?'a = rat] by simp

lemma floor_rat_one: "\<lfloor>(1 :: rat) / numeral b\<rfloor> = 1 div numeral b"
  using floor_divide_of_int_eq [of 1 "numeral b", where ?'a = rat] by simp

lemma ceiling_rat_numeral: "\<lceil>(numeral a :: rat) / numeral b\<rceil> = - (- numeral a div numeral b)"
  using ceiling_divide_eq_div [of "numeral a" "numeral b", where ?'a = rat] by simp

lemmas double_simps =
  round_double_def ulp_def binade_def round_even_def pow2_def Let_def bits_0 bits_pos
  floor_rat_numeral floor_rat_one ceiling_rat_numeral

lemma round_double_numeral:
  "(numeral k :: nat) < 9007199254740992 \<Longrightarrow> round_double (numeral k) = Num (numeral k)"
  using round_double_of_nat [of "numeral k"] by simp

lemma round_double_1: "round_double 1 = Num 1"
  using round_double_of_nat [of 1] by simp

lemmas run_simps =
  loadTest_def initial_def js_eq_def js_sub_def upt_conv_Cons
  getResponseSize_def parseInt_def is_space_def is_digit_def decimal_def digit_val_def
  byteLength_def quote_def escape_char_def Let_def
  round_double_0 round_double_1 round_double_numeral

lemmas print_simps =
  summarize_def recomputed_def hundredths_def digits_small digits_large digit_char_def
  toNumber_def unsigned_decimal_def is_digit_def decimal_def digit_val_def
  double_simps

lemma valid_example:
  "validateInputs ''https://example.com'' (Num 3) (Num 2) = None"
  "validateInputs ''https://example.com'' (Num 1) (Num 1) = None"
  "validateInputs ''https://example.com'' (Num 10) (Num 3) = None"
  by (simp_all add: validateInputs_def match_url_def line_terminator_first_def)

lemma sample_run:
  "loadTest ''https://example.com'' (Num 3) (Num 2) sample_world = Some (Inr sample_result)"
  by (simp add: run_simps sample_world_def sample_result_def ok_response_def
      missing_response_def)

lemma single_run:
  "loadTest ''https://example.com'' (Num 1) (Num 1) single_world = Some (Inr single_result)"
  by (simp add: run_simps single_world_def single_result_def ok_response_def)

lemma instant_run:
  "loadTest ''https://example.com'' (Num 1) (Num 1) instant_world = Some (Inr instant_result)"
  by (simp add: run_simps instant_world_def instant_result_def ok_response_def)

lemma sample_summary:
  "summarize sample_result =
     \<lparr>errorRate = ''66.67'', averageResponseTimeMs = ''3372.67'',
      totalResponseSizeMB = ''0.00'', mbps = ''0.00''\<rparr>"
  by (simp add: sample_result_def print_simps)

lemma sample_recomputed:
  "recomputed (responses sample_result) (totalTimeTakenMs sample_result) =
     \<lparr>errorRate = ''66.67'', averageResponseTimeMs = ''3372.67'',
      totalResponseSizeMB = ''0.00'', mbps = ''0.00''\<rparr>"
  by (simp add: sample_result_def print_simps)

lemma instant_summary:
  "mbps (summarize instant_result) = ''0''"
  "mbps (recomputed (responses instant_result) (totalTimeTakenMs instant_result)) = ''NaN''"
  by (simp_all add: instant_result_def print_simps)

lemmas limiter_simps =
  throttled_def submitted_def submit_def throttle_def handleFn_def settle_def upt_conv_Cons

lemma sample_throttled:
  "throttled (requestsPerSecond (Num 3) (Num 2)) 3 (events sample_world)"
  "throttled (requestsPerSecond (Num 3) (Num 2)) 3 (events unfailing_world)"
  "throttled (requestsPerSecond (Num 1) (Num 1)) 1 (events single_world)"
  "throttled (requestsPerSecond (Num 1) (Num 1)) 1 (events instant_world)"
  by (simp_all add: limiter_simps sample_world_def unfailing_world_def single_world_def
      instant_world_def requestsPerSecond_def double_simps)

lemma burst_throttled: "throttled (Num 4) 10 (events burst_world)"
  by (simp add: limiter_simps burst_world_def)

lemma burst_run:
  "loadTest ''https://example.com'' (Num 10) (Num 3) burst_world = Some (Inr burst_result)"
  by (simp add: run_simps burst_world_def burst_result_def ok_response_def)

lemma rate_example: "requestsPerSecond (Num 10) (Num 3) = Num 4"
  by (simp add: requestsPerSecond_def double_simps)


section \<open>The claims\<close>

text \<open>
  C1. After \<open>loadTest\<close> completes on valid inputs, every request having succeeded or
  failed, the two counters add up to the number of recorded outcomes, and that number is
  \<open>totalRequests\<close>: each outcome is counted once, by the counter of its \<open>success\<close>
  flag.
\<close>

theorem loadTest_counts:
  assumes "validateInputs url requests seconds = None"
    and "loadTest url requests seconds w = Some (Inr r)"
  shows "successfulRequests r + failedRequests r = length (responses r) \<and>
         Num (of_nat (length (responses r))) = totalRequests r \<and>
         totalRequests r = requests \<and>
         successfulRequests r = length (filter success (responses r)) \<and>
         failedRequests r = length (filter (\<lambda>d. \<not> success d) (responses r))"
proof -
  from assms(1) obtain n t where n: "0 < n" "requests = Num (of_nat n)"
    by (rule validateInputs_None)
  note sh = loadTest_shape [OF n(1) assms(2) [unfolded n(2)]]
  have "successfulRequests r + failedRequests r = length (responses r)"
    unfolding sh(1,2) by (rule sum_length_filter_compl)
  with sh(1,2,4,7) n(2) show ?thesis by simp
qed

theorem loadTest_counts_witness:
  "validateInputs ''https://example.com'' (Num 3) (Num 2) = None \<and>
   loadTest ''https://example.com'' (Num 3) (Num 2) sample_world = Some (Inr sample_result) \<and>
   successfulRequests sample_result + failedRequests sample_result =
     length (responses sample_result) \<and>
   Num (of_nat (length (responses sample_result))) = totalRequests sample_result \<and>
   totalRequests sample_result = Num 3 \<and>
   successfulRequests sample_result = length (filter success (responses sample_result)) \<and>
   failedRequests sample_result =
     length (filter (\<lambda>d. \<not> success d) (responses sample_result))"
  using loadTest_counts [OF valid_example(1) sample_run] valid_example(1) sample_run
  by simp




text \<open>
  C3. As amended: the check of the two numbers is made by \<open>validateInputs\<close>, which
  \<open>runTest\<close> calls before \<open>loadTest\<close>. When \<open>totalRequests <= 0\<close> or
  \<open>timeWindowSeconds <= 0\<close>, \<open>runTest\<close> reports the error that \<open>validateInputs\<close> throws,
  whatever the limiter and the HTTP client would have done: \<open>loadTest\<close> is not called, no
  rate is computed, no request is issued and no result is produced.
\<close>

theorem runTest_rejects_invalid:
  assumes "js_le0 requests \<or> js_le0 seconds"
  shows "\<exists>e. validateInputs url requests seconds = Some (Error e) \<and>
             runTest url requests seconds w = Some (Inl (Error e))"
  using assms by (auto simp: runTest_def validateInputs_def)

theorem runTest_rejects_invalid_witness:
  "js_le0 (Num 0) \<and>
   validateInputs ''https://example.com'' (Num 0) (Num 5) =
     Some (Error ''Invalid totalRequests. Please provide a positive integer.'') \<and>
   runTest ''https://example.com'' (Num 0) (Num 5) sample_world =
     Some (Inl (Error ''Invalid totalRequests. Please provide a positive integer.''))"
proof -
  have h: "js_le0 (Num 0) \<or> js_le0 (Num 5)" by simp
  have v: "validateInputs ''https://example.com'' (Num 0) (Num 5) =
     Some (Error ''Invalid totalRequests. Please provide a positive integer.'')"
    by (simp add: validateInputs_def match_url_def line_terminator_first_def)
  from runTest_rejects_invalid [OF h, of "''https://example.com''" sample_world] v
  show ?thesis by auto
qed

text \<open>
  C3 as stated fails: called by itself with \<open>totalRequests = -3\<close> and
  \<open>timeWindowSeconds = -1\<close>, \<open>loadTest\<close> computes the rate 3, submits no task and resolves
  with a result that has no outcomes.
\<close>

theorem loadTest_accepts_invalid:
  "requestsPerSecond (Num (- 3)) (Num (- 1)) = Num 3 \<and>
   loadTest ''https://example.com'' (Num (- 3)) (Num (- 1))
     \<lparr>startTime = 1000, events = [], endTime = 1001\<rparr> =
   Some (Inr \<lparr>totalRequests = Num (- 3),
              timeWindowSeconds = Num (- 1),
              successfulRequests = 0,
              failedRequests = 0,
              responses = [],
              totalTimeTakenMs = 1,
              firstQueryStartTime = None,
              lastQueryStartTime = None,
              totalResponseSizeBytes = Num 0\<rparr>)"
  by (simp add: loadTest_def initial_def requestsPerSecond_def double_simps)

text \<open>
  C4. The limiter starts the tasks in the order of their submission, whatever the rate
  (lemma \<open>throttled_fifo\<close>). It does not keep the admissions of a second to the rate: ten
  requests in three seconds have the rate 4, and when every request is answered after 10
  milliseconds the limiter starts all ten tasks within 20 milliseconds, one for each
  request answered. The inputs are valid (lemma \<open>valid_example\<close>). The run below is
  one that the limiter performs; \<open>loadTest\<close> completes on it; its ten admissions are in
  order and all fall into the second that starts with the first, so the bound of the
  specification does not hold for it.
\<close>

theorem burst_admissions:
  "requestsPerSecond (Num 10) (Num 3) = Num 4 \<and>
   throttled (requestsPerSecond (Num 10) (Num 3)) 10 (events burst_world) \<and>
   loadTest ''https://example.com'' (Num 10) (Num 3) burst_world = Some (Inr burst_result) \<and>
   map fst (admissions (events burst_world)) = [0, 1, 2, 3, 4, 5, 6, 7, 8, 9] \<and>
   map snd (admissions (events burst_world)) =
     [1000, 1000, 1000, 1000, 1010, 1010, 1010, 1010, 1020, 1020] \<and>
   admitted_within 1000 (events burst_world) = 10 \<and>
   rolling_bound (Num 4) (events burst_world) = False"
proof -
  have "map fst (admissions (events burst_world)) = [0, 1, 2, 3, 4, 5, 6, 7, 8, 9]"
    and "map snd (admissions (events burst_world)) =
      [1000, 1000, 1000, 1000, 1010, 1010, 1010, 1010, 1020, 1020]"
    by (simp_all add: burst_world_def)
  moreover have "admitted_within 1000 (events burst_world) = 10"
    by (simp add: admitted_within_def burst_world_def)
  moreover have "rolling_bound (Num 4) (events burst_world) = False"
    by (simp add: rolling_bound_def admitted_within_def burst_world_def)
  ultimately show ?thesis
    using rate_example burst_throttled burst_run by simp
qed

text \<open>
  C5. After a completed run, \<open>totalResponseSizeBytes\<close> is the sum of \<open>sizeBytes\<close> over
  the recorded outcomes, added up in the order of the list from 0; the outcome of a failed
  request has the size of the response attached to the failure, and 0 when there is none.
\<close>

theorem totalResponseSizeBytes_sum:
  assumes "loadTest url requests seconds w = Some (Inr r)"
  shows "totalResponseSizeBytes r = foldl js_add (Num 0) (map sizeBytes (responses r)) \<and>
         (\<forall>i now err. Rejected i now err \<in> set (events w) \<longrightarrow>
            (\<exists>d \<in> set (responses r). requestNumber d = Suc i \<and> \<not> success d \<and>
               sizeBytes d = (case response err of
                                Some resp \<Rightarrow> getResponseSize (Some resp)
                              | None \<Rightarrow> Num 0)))"
proof -
  from assms obtain s where
    run: "run_events (toLength requests) (events w) (initial requests seconds) = Some s"
    and r: "responses r = responses (results s)"
      "totalResponseSizeBytes r = totalResponseSizeBytes (results s)"
    by (rule loadTest_run)
  have total: "totalResponseSizeBytes r = foldl js_add (Num 0) (map sizeBytes (responses r))"
    using run_events_counted [OF run] r unfolding counted_def by simp
  have "\<exists>d \<in> set (responses r). requestNumber d = Suc i \<and> \<not> success d \<and>
          sizeBytes d = (case response err of
                           Some resp \<Rightarrow> getResponseSize (Some resp)
                         | None \<Rightarrow> Num 0)"
    if "Rejected i now err \<in> set (events w)" for i now err
  proof -
    from run_events_Rejected [OF run that] obtain t0 where
      "\<lparr>requestNumber = Suc i, timeMs = now - t0,
        status = (case response err of Some resp \<Rightarrow> Code (response.status resp) | None \<Rightarrow> NA),
        success = False,
        sizeBytes = (case response err of Some resp \<Rightarrow> getResponseSize (Some resp) | None \<Rightarrow> Num 0),
        error = Some (message err)\<rparr> \<in> set (responses (results s))"
      by blast
    then show ?thesis
      unfolding r(1) by (rule rev_bexI) simp
  qed
  with total show ?thesis by blast
qed

theorem totalResponseSizeBytes_sum_witness:
  "loadTest ''https://example.com'' (Num 3) (Num 2) sample_world = Some (Inr sample_result) \<and>
   totalResponseSizeBytes sample_result =
     foldl js_add (Num 0) (map sizeBytes (responses sample_result)) \<and>
   Rejected 1 1030
     \<lparr>message = ''Request failed with status code 404'', response = Some missing_response\<rparr>
     \<in> set (events sample_world) \<and>
   (\<exists>d \<in> set (responses sample_result). requestNumber d = Suc 1 \<and> \<not> success d \<and>
      sizeBytes d = getResponseSize (Some missing_response)) \<and>
   Rejected 2 11030 \<lparr>message = ''timeout of 10000ms exceeded'', response = None\<rparr>
     \<in> set (events sample_world) \<and>
   (\<exists>d \<in> set (responses sample_result). requestNumber d = Suc 2 \<and> \<not> success d \<and>
      sizeBytes d = Num 0)"
proof -
  have e1: "Rejected 1 1030
     \<lparr>message = ''Request failed with status code 404'', response = Some missing_response\<rparr>
     \<in> set (events sample_world)"
    and e2: "Rejected 2 11030 \<lparr>message = ''timeout of 10000ms exceeded'', response = None\<rparr>
     \<in> set (events sample_world)"
    by (simp_all add: sample_world_def)
  note t = totalResponseSizeBytes_sum [OF sample_run]
  from t have "totalResponseSizeBytes sample_result =
     foldl js_add (Num 0) (map sizeBytes (responses sample_result))" by blast
  moreover from t [THEN conjunct2, rule_format, OF e1]
  have "\<exists>d \<in> set (responses sample_result). requestNumber d = Suc 1 \<and> \<not> success d \<and>
      sizeBytes d = getResponseSize (Some missing_response)"
    by simp
  moreover from t [THEN conjunct2, rule_format, OF e2]
  have "\<exists>d \<in> set (responses sample_result). requestNumber d = Suc 2 \<and> \<not> success d \<and>
      sizeBytes d = Num 0"
    by simp
  ultimately show ?thesis using sample_run e1 e2 by blast
qed

text \<open>
  C6. As amended: for every request that fails, the recorded outcome has
  \<open>success = false\<close>, the failure's message as its error (the message is copied as it is,
  empty or not), \<open>timeMs\<close> equal to the time of the failure minus the start time of that
  request, which is how the outcome of a success gets its \<open>timeMs\<close>, the status of the
  attached response or else \<open>N/A\<close>, and the size of the attached response or else 0. The
  run is not cut short: it records one outcome per request, and it would have completed on
  the same schedule whichever of its requests had succeeded or failed.
\<close>

theorem rejected_request_recorded:
  assumes "loadTest url requests seconds w = Some (Inr r)"
    and "Rejected i now err \<in> set (events w)"
  shows "\<exists>t0. Begin i t0 \<in> set (events w) \<and> (\<forall>t. Begin i t \<in> set (events w) \<longrightarrow> t = t0) \<and>
           \<lparr>requestNumber = Suc i,
            timeMs = now - t0,
            status = (case response err of
                        Some resp \<Rightarrow> Code (response.status resp)
                      | None \<Rightarrow> NA),
            success = False,
            sizeBytes = (case response err of
                           Some resp \<Rightarrow> getResponseSize (Some resp)
                         | None \<Rightarrow> Num 0),
            error = Some (message err)\<rparr> \<in> set (responses r) \<and>
           (\<forall>j now' resp. Fulfilled j now' resp \<in> set (events w) \<longrightarrow>
              (\<exists>t1. Begin j t1 \<in> set (events w) \<and>
                 \<lparr>requestNumber = Suc j,
                  timeMs = now' - t1,
                  status = Code (response.status resp),
                  success = True,
                  sizeBytes = getResponseSize (Some resp),
                  error = None\<rparr> \<in> set (responses r))) \<and>
           length (responses r) = toLength requests \<and>
           (\<forall>w'. map shape (events w') = map shape (events w) \<longrightarrow>
              (\<exists>r'. loadTest url requests seconds w' = Some (Inr r')))"
proof -
  from assms(1) obtain s where
    run: "run_events (toLength requests) (events w) (initial requests seconds) = Some s"
    and r: "responses r = responses (results s)"
    by (rule loadTest_run)
  note q = initial_phase [of requests seconds]
  from run_events_Rejected [OF run assms(2)] q obtain t0 where
    t0: "Begin i t0 \<in> set (events w)"
    and d: "\<lparr>requestNumber = Suc i, timeMs = now - t0,
      status = (case response err of Some resp \<Rightarrow> Code (response.status resp) | None \<Rightarrow> NA),
      success = False,
      sizeBytes = (case response err of Some resp \<Rightarrow> getResponseSize (Some resp) | None \<Rightarrow> Num 0),
      error = Some (message err)\<rparr> \<in> set (responses r)"
    unfolding r by auto
  have once: "\<forall>t. Begin i t \<in> set (events w) \<longrightarrow> t = t0"
    using run_events_Begin_once [OF run q _ t0] by blast
  have ok: "\<exists>t1. Begin j t1 \<in> set (events w) \<and>
       \<lparr>requestNumber = Suc j, timeMs = now' - t1, status = Code (response.status resp),
        success = True, sizeBytes = getResponseSize (Some resp), error = None\<rparr>
       \<in> set (responses r)"
    if "Fulfilled j now' resp \<in> set (events w)" for j now' resp
    using run_events_Fulfilled [OF run that] initial_phase [of requests seconds j]
    unfolding r by auto
  from t0 once d ok loadTest_length [OF assms(1)] loadTest_alike [OF assms(1)]
  show ?thesis by blast
qed

theorem rejected_request_recorded_witness:
  "loadTest ''https://example.com'' (Num 3) (Num 2) sample_world = Some (Inr sample_result) \<and>
   Rejected 1 1030
     \<lparr>message = ''Request failed with status code 404'', response = Some missing_response\<rparr>
     \<in> set (events sample_world) \<and>
   \<lparr>requestNumber = Suc 1, timeMs = 1030 - 1001, status = Code 404, success = False,
    sizeBytes = getResponseSize (Some missing_response),
    error = Some ''Request failed with status code 404''\<rparr> \<in> set (responses sample_result) \<and>
   Fulfilled 0 1090 ok_response \<in> set (events sample_world) \<and>
   \<lparr>requestNumber = Suc 0, timeMs = 1090 - 1001, status = Code 200, success = True,
    sizeBytes = getResponseSize (Some ok_response), error = None\<rparr>
     \<in> set (responses sample_result) \<and>
   length (responses sample_result) = toLength (Num 3) \<and>
   map shape (events unfailing_world) = map shape (events sample_world) \<and>
   (\<exists>r'. loadTest ''https://example.com'' (Num 3) (Num 2) unfailing_world = Some (Inr r'))"
proof -
  have e1: "Rejected 1 1030
     \<lparr>message = ''Request failed with status code 404'', response = Some missing_response\<rparr>
     \<in> set (events sample_world)"
    and e0: "Fulfilled 0 1090 ok_response \<in> set (events sample_world)"
    and b1: "Begin 1 1001 \<in> set (events sample_world)"
    and b0: "Begin 0 1001 \<in> set (events sample_world)"
    by (simp_all add: sample_world_def)
  have m: "map shape (events unfailing_world) = map shape (events sample_world)"
    by (simp add: unfailing_world_def sample_world_def)
  from rejected_request_recorded [OF sample_run e1] obtain t0 where
    t0: "\<forall>t. Begin 1 t \<in> set (events sample_world) \<longrightarrow> t = t0"
    and d: "\<lparr>requestNumber = Suc 1, timeMs = 1030 - t0,
            status = (case response \<lparr>message = ''Request failed with status code 404'',
                        response = Some missing_response\<rparr> of
                        Some resp \<Rightarrow> Code (response.status resp)
                      | None \<Rightarrow> NA),
            success = False,
            sizeBytes = (case response \<lparr>message = ''Request failed with status code 404'',
                           response = Some missing_response\<rparr> of
                           Some resp \<Rightarrow> getResponseSize (Some resp)
                         | None \<Rightarrow> Num 0),
            error = Some (message \<lparr>message = ''Request failed with status code 404'',
                        response = Some missing_response\<rparr>)\<rparr> \<in> set (responses sample_result)"
    and f: "\<forall>j now' resp. Fulfilled j now' resp \<in> set (events sample_world) \<longrightarrow>
              (\<exists>t1. Begin j t1 \<in> set (events sample_world) \<and>
                 \<lparr>requestNumber = Suc j,
                  timeMs = now' - t1,
                  status = Code (response.status resp),
                  success = True,
                  sizeBytes = getResponseSize (Some resp),
                  error = None\<rparr> \<in> set (responses sample_result))"
    and l: "length (responses sample_result) = toLength (Num 3)"
    and a: "\<forall>w'. map shape (events w') = map shape (events sample_world) \<longrightarrow>
              (\<exists>r'. loadTest ''https://example.com'' (Num 3) (Num 2) w' = Some (Inr r'))"
    by blast
  from t0 b1 have "t0 = 1001" by auto
  with d have d1: "\<lparr>requestNumber = Suc 1, timeMs = 1030 - 1001, status = Code 404, success = False,
    sizeBytes = getResponseSize (Some missing_response),
    error = Some ''Request failed with status code 404''\<rparr> \<in> set (responses sample_result)"
    by (simp add: missing_response_def)
  from f [rule_format, OF e0] obtain t1 where
    t1: "Begin 0 t1 \<in> set (events sample_world)"
    and d0: "\<lparr>requestNumber = Suc 0, timeMs = 1090 - t1, status = Code (response.status ok_response),
      success = True, sizeBytes = getResponseSize (Some ok_response), error = None\<rparr>
      \<in> set (responses sample_result)"
    by blast
  from t1 have "t1 = 1001" by (simp add: sample_world_def)
  with d0 have d0': "\<lparr>requestNumber = Suc 0, timeMs = 1090 - 1001, status = Code 200, success = True,
    sizeBytes = getResponseSize (Some ok_response), error = None\<rparr>
     \<in> set (responses sample_result)"
    by (simp add: ok_response_def)
  from a [rule_format, OF m]
  have "\<exists>r'. loadTest ''https://example.com'' (Num 3) (Num 2) unfailing_world = Some (Inr r')" .
  with sample_run e1 d1 e0 d0' l m show ?thesis by blast
qed

text \<open>
  C6 as stated fails on the message: a request that is rejected with an empty message is
  recorded with an empty error.
\<close>

theorem rejected_empty_message:
  "loadTest ''https://example.com'' (Num 1) (Num 1)
     \<lparr>startTime = 1000,
      events = [Begin 0 1001, Rejected 0 1005 \<lparr>message = [], response = None\<rparr>],
      endTime = 1006\<rparr> =
   Some (Inr \<lparr>totalRequests = Num 1,
              timeWindowSeconds = Num 1,
              successfulRequests = 0,
              failedRequests = 1,
              responses =
                [\<lparr>requestNumber = 1, timeMs = 4, status = NA, success = False,
                  sizeBytes = Num 0, error = Some []\<rparr>],
              totalTimeTakenMs = 6,
              firstQueryStartTime = Some 1001,
              lastQueryStartTime = Some 1001,
              totalResponseSizeBytes = Num 0\<rparr>)"
  by (simp add: run_simps)

text \<open>
  C7. As amended: when the \<open>content-length\<close> header is present and not empty, the size is
  its parsed value and the body is ignored; else, when the body is truthy (not
  \<open>undefined\<close>, \<open>null\<close>, \<open>false\<close>, \<open>0\<close> or the empty string), the size is the UTF-8
  length of the body's JSON serialisation; else the size is 0.
\<close>

theorem getResponseSize_preference:
  "(\<forall>h. headers r ''content-length'' = Some h \<and> h \<noteq> [] \<longrightarrow>
        getResponseSize (Some r) = parseInt h \<and>
        getResponseSize (Some (r\<lparr>data := d'\<rparr>)) = parseInt h) \<and>
   (headers r ''content-length'' = None \<or> headers r ''content-length'' = Some [] \<longrightarrow>
      (\<forall>d. data r = Some d \<and> truthy d \<longrightarrow>
         getResponseSize (Some r) = Num (of_nat (byteLength (JSON_stringify d)))) \<and>
      (data r = None \<or> (\<exists>d. data r = Some d \<and> \<not> truthy d) \<longrightarrow>
         getResponseSize (Some r) = Num 0))"
  by (auto simp: getResponseSize_def split: option.splits list.splits)

theorem getResponseSize_preference_witness:
  "headers ok_response ''content-length'' = Some ''100'' \<and>
   getResponseSize (Some ok_response) = parseInt ''100'' \<and>
   getResponseSize (Some (ok_response\<lparr>data := None\<rparr>)) = parseInt ''100'' \<and>
   parseInt ''100'' = Num 100 \<and>
   headers missing_response ''content-length'' = None \<and>
   data missing_response = Some (JObject [(''error'', JString ''not found'')]) \<and>
   truthy (JObject [(''error'', JString ''not found'')]) \<and>
   getResponseSize (Some missing_response) =
     Num (of_nat (byteLength (JSON_stringify (JObject [(''error'', JString ''not found'')])))) \<and>
   byteLength (JSON_stringify (JObject [(''error'', JString ''not found'')])) = 21 \<and>
   headers empty_response ''content-length'' = None \<and>
   data empty_response = Some (JString []) \<and>
   \<not> truthy (JString []) \<and>
   getResponseSize (Some empty_response) = Num 0"
proof -
  have h1: "headers ok_response ''content-length'' = Some ''100''"
    by (simp add: ok_response_def)
  have h2: "headers missing_response ''content-length'' = None"
    "data missing_response = Some (JObject [(''error'', JString ''not found'')])"
    by (simp_all add: missing_response_def)
  have h3: "headers empty_response ''content-length'' = None"
    "data empty_response = Some (JString [])"
    by (simp_all add: empty_response_def)
  have p: "parseInt ''100'' = Num 100"
    by (simp add: parseInt_def is_space_def is_digit_def decimal_def digit_val_def double_simps)
  have b: "byteLength (JSON_stringify (JObject [(''error'', JString ''not found'')])) = 21"
    by (simp add: byteLength_def quote_def escape_char_def)
  from getResponseSize_preference [of ok_response None] h1
  have a1: "getResponseSize (Some ok_response) = parseInt ''100''"
    "getResponseSize (Some (ok_response\<lparr>data := None\<rparr>)) = parseInt ''100''"
    by simp_all
  from getResponseSize_preference [of missing_response] h2
  have a2: "getResponseSize (Some missing_response) =
     Num (of_nat (byteLength (JSON_stringify (JObject [(''error'', JString ''not found'')]))))"
    by simp
  from getResponseSize_preference [of empty_response] h3
  have a3: "getResponseSize (Some empty_response) = Num 0"
    by simp
  from h1 h2 h3 p b a1 a2 a3 show ?thesis by simp
qed

text \<open>
  C7 as stated fails twice. A body that is present and falsy, such as the JSON value
  \<open>false\<close>, is given the size 0, not the 5 bytes of its serialisation; and a
  \<open>content-length\<close> header that is present and empty is passed over for the body.
\<close>

theorem getResponseSize_falsy:
  "getResponseSize (Some false_response) = Num 0 \<and>
   responseSize_spec false_response = Num 5 \<and>
   getResponseSize (Some blank_header_response) = Num 4 \<and>
   responseSize_spec blank_header_response = NaN"
  by (simp add: getResponseSize_def responseSize_spec_def false_response_def
      blank_header_response_def byteLength_def quote_def escape_char_def parseInt_def)

text \<open>
  C8. As amended: after a completed run on valid inputs, the reported error rate, average
  response time and megabytes are the figures recomputed from the list of outcomes, and so
  is the throughput whenever the total elapsed time is positive; when it is not, the
  throughput is reported as 0.
\<close>

theorem summarize_recomputed:
  assumes "validateInputs url requests seconds = None"
    and "loadTest url requests seconds w = Some (Inr r)"
  shows "errorRate (summarize r) = errorRate (recomputed (responses r) (totalTimeTakenMs r)) \<and>
    averageResponseTimeMs (summarize r) =
      averageResponseTimeMs (recomputed (responses r) (totalTimeTakenMs r)) \<and>
    totalResponseSizeMB (summarize r) =
      totalResponseSizeMB (recomputed (responses r) (totalTimeTakenMs r)) \<and>
    mbps (summarize r) =
      (if 0 < totalTimeTakenMs r then mbps (recomputed (responses r) (totalTimeTakenMs r))
       else ''0'')"
proof -
  from assms(1) obtain n t where n: "0 < n" "requests = Num (of_nat n)"
    by (rule validateInputs_None)
  note sh = loadTest_shape [OF n(1) assms(2) [unfolded n(2)]]
  have pos: "0 < length (responses r)"
    using sh(4) n(1) by simp
  show ?thesis
    unfolding summarize_def recomputed_def Let_def
    using pos
    by (simp add: sh(2) [symmetric] sh(3) [symmetric] sh(7) sh(4) foldl_timeMs js_gt0_seconds
        del: js_div.simps js_mul.simps toFixed2.simps)
qed

theorem summarize_recomputed_witness:
  "validateInputs ''https://example.com'' (Num 3) (Num 2) = None \<and>
   loadTest ''https://example.com'' (Num 3) (Num 2) sample_world = Some (Inr sample_result) \<and>
   0 < totalTimeTakenMs sample_result \<and>
   summarize sample_result =
     recomputed (responses sample_result) (totalTimeTakenMs sample_result) \<and>
   summarize sample_result =
     \<lparr>errorRate = ''66.67'', averageResponseTimeMs = ''3372.67'',
      totalResponseSizeMB = ''0.00'', mbps = ''0.00''\<rparr> \<and>
   validateInputs ''https://example.com'' (Num 1) (Num 1) = None \<and>
   loadTest ''https://example.com'' (Num 1) (Num 1) instant_world = Some (Inr instant_result) \<and>
   totalTimeTakenMs instant_result = 0 \<and>
   errorRate (summarize instant_result) =
     errorRate (recomputed (responses instant_result) (totalTimeTakenMs instant_result)) \<and>
   mbps (summarize instant_result) = ''0''"
proof -
  have zero: "totalTimeTakenMs instant_result = 0"
    by (simp add: instant_result_def)
  from summarize_recomputed [OF valid_example(2) instant_run] zero
  have i: "errorRate (summarize instant_result) =
     errorRate (recomputed (responses instant_result) (totalTimeTakenMs instant_result))"
    "mbps (summarize instant_result) = ''0''"
    by simp_all
  have pos: "0 < totalTimeTakenMs sample_result"
    by (simp add: sample_result_def)
  from summarize_recomputed [OF valid_example(1) sample_run] pos
  have "summarize sample_result =
     recomputed (responses sample_result) (totalTimeTakenMs sample_result)"
    by (simp add: summary.equality)
  with valid_example sample_run instant_run pos zero i sample_summary show ?thesis by simp
qed

text \<open>
  C8 as stated fails on the throughput when no time has elapsed: for a single request
  answered within the millisecond in which the run started, \<open>runTest\<close> reports the
  throughput 0, and \<open>totalMB / (totalElapsedMs / 1000)\<close> is \<open>0 / 0\<close>.
\<close>

theorem summarize_zero_time:
  "loadTest ''https://example.com'' (Num 1) (Num 1) instant_world = Some (Inr instant_result) \<and>
   totalTimeTakenMs instant_result = 0 \<and>
   mbps (summarize instant_result) = ''0'' \<and>
   mbps (recomputed (responses instant_result) (totalTimeTakenMs instant_result)) = ''NaN''"
  using instant_run instant_summary by (simp add: instant_result_def)

text \<open>
  C9. The outcome of the task of index \<open>i\<close> has the request number \<open>i + 1\<close>, whether
  its request succeeds or fails; after a completed run of \<open>n\<close> requests the request
  numbers of the recorded outcomes are 1 to \<open>n\<close>, each exactly once, in whatever order
  the requests finished.
\<close>

theorem requestNumber_once:
  assumes "0 < n" and "loadTest url (Num (of_nat n)) seconds w = Some (Inr r)"
  shows "distinct (map requestNumber (responses r)) \<and>
         set (map requestNumber (responses r)) = {1..n} \<and>
         length (responses r) = n \<and>
         (\<forall>k. length (filter (\<lambda>d. requestNumber d = k) (responses r)) =
               (if 1 \<le> k \<and> k \<le> n then 1 else 0)) \<and>
         (\<forall>i now resp. Fulfilled i now resp \<in> set (events w) \<longrightarrow>
            (\<exists>d \<in> set (responses r). requestNumber d = i + 1 \<and> success d \<and>
               status d = Code (response.status resp))) \<and>
         (\<forall>i now err. Rejected i now err \<in> set (events w) \<longrightarrow>
            (\<exists>d \<in> set (responses r). requestNumber d = i + 1 \<and> \<not> success d \<and>
               error d = Some (message err)))"
proof -
  note sh = loadTest_shape [OF assms]
  from assms(2) obtain s where
    run: "run_events (toLength (Num (of_nat n))) (events w) (initial (Num (of_nat n)) seconds) =
      Some s"
    and r: "responses r = responses (results s)"
    by (rule loadTest_run)
  have count: "length (filter (\<lambda>d. requestNumber d = k) (responses r)) =
          (if 1 \<le> k \<and> k \<le> n then 1 else 0)" for k
    unfolding filter_distinct_key [OF sh(5)] sh(6) by simp
  have ok: "\<exists>d \<in> set (responses r). requestNumber d = i + 1 \<and> success d \<and>
               status d = Code (response.status resp)"
    if "Fulfilled i now resp \<in> set (events w)" for i now resp
  proof -
    from run_events_Fulfilled [OF run that] obtain t0 where
      "\<lparr>requestNumber = Suc i, timeMs = now - t0, status = Code (response.status resp),
        success = True, sizeBytes = getResponseSize (Some resp), error = None\<rparr>
        \<in> set (responses r)"
      unfolding r by blast
    then show ?thesis by (rule rev_bexI) simp
  qed
  have failed: "\<exists>d \<in> set (responses r). requestNumber d = i + 1 \<and> \<not> success d \<and>
               error d = Some (message err)"
    if "Rejected i now err \<in> set (events w)" for i now err
  proof -
    from run_events_Rejected [OF run that] obtain t0 where
      "\<lparr>requestNumber = Suc i, timeMs = now - t0,
        status = (case response err of Some resp \<Rightarrow> Code (response.status resp) | None \<Rightarrow> NA),
        success = False,
        sizeBytes = (case response err of Some resp \<Rightarrow> getResponseSize (Some resp) | None \<Rightarrow> Num 0),
        error = Some (message err)\<rparr> \<in> set (responses r)"
      unfolding r by blast
    then show ?thesis by (rule rev_bexI) simp
  qed
  from sh(4,5,6) count ok failed show ?thesis by blast
qed

theorem requestNumber_once_witness:
  "(0::nat) < 3 \<and>
   loadTest ''https://example.com'' (Num (of_nat 3)) (Num 2) sample_world =
     Some (Inr sample_result) \<and>
   map requestNumber (responses sample_result) = [2, 1, 3] \<and>
   distinct (map requestNumber (responses sample_result)) \<and>
   set (map requestNumber (responses sample_result)) = {1..3} \<and>
   length (responses sample_result) = 3 \<and>
   length (filter (\<lambda>d. requestNumber d = 2) (responses sample_result)) = 1 \<and>
   length (filter (\<lambda>d. requestNumber d = 4) (responses sample_result)) = 0 \<and>
   Fulfilled 0 1090 ok_response \<in> set (events sample_world) \<and>
   (\<exists>d \<in> set (responses sample_result). requestNumber d = 0 + 1 \<and> success d \<and>
      status d = Code (response.status ok_response)) \<and>
   Rejected 2 11030 \<lparr>message = ''timeout of 10000ms exceeded'', response = None\<rparr>
     \<in> set (events sample_world) \<and>
   (\<exists>d \<in> set (responses sample_result). requestNumber d = 2 + 1 \<and> \<not> success d \<and>
      error d = Some (message \<lparr>message = ''timeout of 10000ms exceeded'', response = None\<rparr>))"
proof -
  have run: "loadTest ''https://example.com'' (Num (of_nat 3)) (Num 2) sample_world =
     Some (Inr sample_result)"
    using sample_run by simp
  have order: "map requestNumber (responses sample_result) = [2, 1, 3]"
    by (simp add: sample_result_def)
  have e0: "Fulfilled 0 1090 ok_response \<in> set (events sample_world)"
    and e2: "Rejected 2 11030 \<lparr>message = ''timeout of 10000ms exceeded'', response = None\<rparr>
     \<in> set (events sample_world)"
    by (simp_all add: sample_world_def)
  have t: "distinct (map requestNumber (responses sample_result))"
    "set (map requestNumber (responses sample_result)) = {1..3}"
    "length (responses sample_result) = 3"
    "\<forall>k. length (filter (\<lambda>d. requestNumber d = k) (responses sample_result)) =
               (if 1 \<le> k \<and> k \<le> 3 then 1 else 0)"
    "\<forall>i now resp. Fulfilled i now resp \<in> set (events sample_world) \<longrightarrow>
            (\<exists>d \<in> set (responses sample_result). requestNumber d = i + 1 \<and> success d \<and>
               status d = Code (response.status resp))"
    "\<forall>i now err. Rejected i now err \<in> set (events sample_world) \<longrightarrow>
            (\<exists>d \<in> set (responses sample_result). requestNumber d = i + 1 \<and> \<not> success d \<and>
               error d = Some (message err))"
    using requestNumber_once [OF _ run] by simp_all
  have k2: "length (filter (\<lambda>d. requestNumber d = 2) (responses sample_result)) = 1"
    using t(4) [rule_format, of 2] by simp
  have k4: "length (filter (\<lambda>d. requestNumber d = 4) (responses sample_result)) = 0"
    using t(4) [rule_format, of 4] by simp
  note f0 = t(5) [rule_format, OF e0]
  note f2 = t(6) [rule_format, OF e2]
  from t(1,2,3) run order k2 k4 e0 e2 f0 f2 show ?thesis by simp
qed

text \<open>
  C10. When \<open>totalRequests\<close> is 1, the single task is the first and the last one: after
  the run both \<open>firstQueryStartTime\<close> and \<open>lastQueryStartTime\<close> are set, to the start time
  of that task.
\<close>

theorem single_request_start_times:
  assumes "loadTest url (Num 1) seconds w = Some (Inr r)"
  shows "\<exists>t0. Begin 0 t0 \<in> set (events w) \<and> (\<forall>t. Begin 0 t \<in> set (events w) \<longrightarrow> t = t0) \<and>
           firstQueryStartTime r = Some t0 \<and> lastQueryStartTime r = Some t0"
proof -
  from assms obtain s where
    run: "run_events (toLength (Num 1)) (events w) (initial (Num 1) seconds) = Some s"
    and r: "firstQueryStartTime r = firstQueryStartTime (results s)"
      "lastQueryStartTime r = lastQueryStartTime (results s)"
    and all: "\<forall>i<toLength (Num 1). phase s i = Settled"
    by (rule loadTest_run)
  from all have "phase s 0 \<noteq> Queued" by simp
  from run_events_first_last [of _ _ 1 _ _ 0, simplified, OF run this] r
  show ?thesis by simp
qed

theorem single_request_start_times_witness:
  "loadTest ''https://example.com'' (Num 1) (Num 1) single_world = Some (Inr single_result) \<and>
   Begin 0 1001 \<in> set (events single_world) \<and>
   firstQueryStartTime single_result = Some 1001 \<and>
   lastQueryStartTime single_result = Some 1001"
proof -
  have b: "Begin 0 1001 \<in> set (events single_world)"
    by (simp add: single_world_def)
  from single_request_start_times [OF single_run] obtain t0 where
    "\<forall>t. Begin 0 t \<in> set (events single_world) \<longrightarrow> t = t0"
    "firstQueryStartTime single_result = Some t0" "lastQueryStartTime single_result = Some t0"
    by blast
  with b single_run show ?thesis by auto
qed

end
